theory Spec2Isabelle
  imports Main "HOL-Library.Char_ord" "HOL-Library.List_Lexorder" "HOL-Library.Multiset"
    "HOL-Library.Sublist"
begin

section \<open>Data model\<close>

type_synonym path = string

text \<open>
  A DocObject as \<^verbatim>\<open>ESDoc.js\<close> reads and builds it. The synthetic tags built by
  \<^verbatim>\<open>_generateForIndex\<close> and \<^verbatim>\<open>_generateForPackageJSON\<close> carry the six fields
  \<open>kind\<close>, \<open>content\<close>, \<open>longname\<close>, \<open>name\<close>, \<open>static\<close>, \<open>access\<close> and no
  \<^verbatim>\<open>__docId__\<close> property; \<^verbatim>\<open>_resolveDuplication\<close> reads \<open>kind\<close>, \<open>longname\<close> and
  \<^verbatim>\<open>__docId__\<close>. The field \<open>docId\<close> is \<^verbatim>\<open>__docId__\<close>; \<open>None\<close> is JavaScript's
  \<^verbatim>\<open>undefined\<close> (the property is absent).

  Modelled from the spec: the type of \<^verbatim>\<open>__docId__\<close>. The code assigning it
  (the doc factory) is not part of \<^verbatim>\<open>ESDoc.js\<close>; the specification calls the
  identifiers strings that are compared as strings, so an identifier is a \<open>string\<close>
  here, a sequence of code units ordered as JavaScript's \<^verbatim>\<open><\<close> orders two strings:
  lexicographically by code unit, a proper prefix first. That is the order of
  \<open>List_Lexorder\<close> over \<open>Char_ord\<close>.
\<close>

record DocObject =
  kind :: string
  content :: string
  longname :: string
  name :: string
  static :: bool
  access :: string
  docId :: "string option"

section \<open>Duplicate resolution\<close>

text \<open>
  The comparator handed to \<^verbatim>\<open>ids.sort\<close>:
  \<^verbatim>\<open>(a, b) => { return a < b ? -1 : 1; }\<close>
\<close>

definition compareFn :: "string \<Rightarrow> string \<Rightarrow> int" where
  "compareFn a b = (if a < b then - 1 else 1)"

text \<open>
  \<^verbatim>\<open>Array.prototype.sort(comparefn)\<close>: the \<^verbatim>\<open>undefined\<close> elements go to the end
  and are never handed to the comparator; the others are ordered by the comparator,
  here by insertion. On pairwise different values the comparator above is a strict total
  order, so every sorting algorithm returns the same array.
\<close>

fun insertBy :: "('a \<Rightarrow> 'a \<Rightarrow> int) \<Rightarrow> 'a \<Rightarrow> 'a list \<Rightarrow> 'a list" where
  "insertBy cmp x [] = [x]"
| "insertBy cmp x (y # ys) = (if cmp x y < 0 then x # y # ys else y # insertBy cmp x ys)"

definition sortBy :: "('a \<Rightarrow> 'a \<Rightarrow> int) \<Rightarrow> 'a list \<Rightarrow> 'a list" where
  "sortBy cmp xs = foldr (insertBy cmp) xs []"

definition arraySort :: "('a \<Rightarrow> 'a \<Rightarrow> int) \<Rightarrow> 'a option list \<Rightarrow> 'a option list" where
  "arraySort cmp xs =
     map Some (sortBy cmp (map the (filter (\<lambda>x. x \<noteq> None) xs))) @ filter (\<lambda>x. x = None) xs"

text \<open>
  One iteration of the loop \<^verbatim>\<open>for (const memberDoc of memberDocs)\<close> of
  \<^verbatim>\<open>_resolveDuplication\<close>, on the list \<open>removeIds\<close> built so far. \<^verbatim>\<open>ids.shift()\<close>
  drops the first element of the sorted identifiers.
\<close>

definition removeIdsStep ::
  "DocObject list \<Rightarrow> string option list \<Rightarrow> DocObject \<Rightarrow> string option list" where
  "removeIdsStep docs removeIds memberDoc =
     (case find (\<lambda>doc. longname doc = longname memberDoc \<and> kind doc \<noteq> ''member'') docs of
        Some sameLongnameDoc \<Rightarrow> removeIds @ [docId memberDoc]
      | None \<Rightarrow>
          (let dup = filter (\<lambda>doc. longname doc = longname memberDoc \<and> kind doc = ''member'') docs
           in if length dup > 1
              then removeIds @ tl (arraySort compareFn (map docId dup))
              else removeIds))"

definition resolveDuplication :: "DocObject list \<Rightarrow> DocObject list" where
  "resolveDuplication docs =
     (let memberDocs = filter (\<lambda>doc. kind doc = ''member'') docs;
          removeIds = foldl (removeIdsStep docs) [] memberDocs
      in filter (\<lambda>doc. docId doc \<notin> set removeIds) docs)"

text \<open>Example documents for the concrete checks below.\<close>

definition mkDoc :: "string \<Rightarrow> string \<Rightarrow> string \<Rightarrow> DocObject" where
  "mkDoc k l i =
     \<lparr>kind = k, content = [], longname = l, name = l, static = False,
      access = ''public'', docId = Some i\<rparr>"

definition docsC1 :: "DocObject list" where
  "docsC1 = [mkDoc ''class'' ''A'' ''1'', mkDoc ''member'' ''A#f'' ''2'',
             mkDoc ''member'' ''A#f'' ''10'', mkDoc ''member'' ''A#f'' ''3'',
             mkDoc ''method'' ''A#g'' ''4'']"

definition docsC10 :: "DocObject list" where
  "docsC10 = [mkDoc ''member'' ''A#x'' ''1'', mkDoc ''method'' ''A#x'' ''2'',
              mkDoc ''member'' ''A#y'' ''3'', mkDoc ''member'' ''A#y'' ''4'',
              mkDoc ''class'' ''A'' ''5'']"

section \<open>Configuration\<close>

text \<open>
  The configuration object. A property that is absent (\<^verbatim>\<open>undefined\<close>) is \<open>None\<close>.
  JavaScript's truthiness decides the guards of \<^verbatim>\<open>generate\<close> and
  \<^verbatim>\<open>_setDefaultConfig\<close>: an absent property and the empty string are falsy, every
  array is truthy.
\<close>

record ESDocConfig =
  source :: "string option"
  destination :: "string option"
  "includes" :: "string list option"
  excludes :: "string list option"
  index :: "string option"
  package :: "string option"
  plugins :: "string list option"
  debug :: "bool option"

definition truthy :: "string option \<Rightarrow> bool" where
  "truthy v = (case v of None \<Rightarrow> False | Some s \<Rightarrow> s \<noteq> [])"

definition backslash :: char where
  "backslash = CHR 0x5C"

text \<open>
  \<^verbatim>\<open>_setDefaultConfig\<close>. The JavaScript literals \<^verbatim>\<open>'\\.(js|es6)$'\<close> and
  \<^verbatim>\<open>'\\.config\\.(js|es6)$'\<close> are the strings \<^verbatim>\<open>\.(js|es6)$\<close> and
  \<^verbatim>\<open>\.config\.(js|es6)$\<close>.
\<close>

definition setDefaultConfig :: "ESDocConfig \<Rightarrow> ESDocConfig" where
  "setDefaultConfig config =
     (let c1 = (if includes config = None
                then config\<lparr>includes := Some [backslash # ''.(js|es6)$'']\<rparr> else config);
          c2 = (if excludes c1 = None
                then c1\<lparr>excludes := Some [backslash # ''.config'' @ backslash # ''.(js|es6)$'']\<rparr>
                else c1);
          c3 = (if \<not> truthy (index c2) then c2\<lparr>index := Some ''./README.md''\<rparr> else c2);
          c4 = (if \<not> truthy (package c3) then c3\<lparr>package := Some ''./package.json''\<rparr> else c3)
      in c4)"

section \<open>Effects\<close>

text \<open>
  What a call can end in: it returns a value, it throws, or the process exits
  (\<^verbatim>\<open>process.exit\<close>). \<open>Raised\<close> is an error raised by a collaborator that is not part
  of \<^verbatim>\<open>ESDoc.js\<close> (the parser, the doc factory, a plugin).
\<close>

datatype error = AssertionError | TypeError | SyntaxError string | FsError path | Raised string

datatype 'a outcome = Return 'a | Throw error | Exit int

text \<open>The side effects of \<^verbatim>\<open>ESDoc.js\<close>, in the order they happen.\<close>

datatype 'node event =
    EvPluginInit "string list option"
  | EvOnStart
  | EvOnHandleConfig ESDocConfig
  | EvSetLoggerDebug bool
  | EvReadFile path
  | EvReadDir path
  | EvStat path
  | EvConsoleLog string
  | EvLoggerInfo string
  | EvParse path
  | EvShowFile path error
  | EvShowNode path 'node
  | EvOnHandleDocs "DocObject list"
  | EvOnHandleContent string path
  | EvWriteFile path string
  | EvCopy path path
  | EvOnPublish
  | EvShowError error
  | EvOnComplete

text \<open>
  The state of a run: the two accumulators of \<^verbatim>\<open>generate\<close> (\<open>results\<close>, \<open>asts\<close>), the
  text of the files on disk, and the trace of side effects so far.
\<close>

record ('ast, 'node) state =
  results :: "DocObject list"
  asts :: "(path \<times> 'ast) list"
  files :: "path \<rightharpoonup> string"
  trace :: "'node event list"

type_synonym ('a, 'ast, 'node) run = "('ast, 'node) state \<Rightarrow> 'a outcome \<times> ('ast, 'node) state"

definition emit :: "'node event \<Rightarrow> ('ast, 'node) state \<Rightarrow> ('ast, 'node) state" where
  "emit e s = s\<lparr>trace := trace s @ [e]\<rparr>"

definition andThen :: "('a, 'ast, 'node) run \<Rightarrow> ('a \<Rightarrow> ('b, 'ast, 'node) run) \<Rightarrow> ('b, 'ast, 'node) run" where
  "andThen m f s =
     (case m s of
        (Return x, s1) \<Rightarrow> f x s1
      | (Throw e, s1) \<Rightarrow> (Throw e, s1)
      | (Exit n, s1) \<Rightarrow> (Exit n, s1))"

text \<open>A directory tree as \<^verbatim>\<open>fs.readdirSync\<close> and \<^verbatim>\<open>fs.statSync\<close> show it: a plain
  file, a directory with its entries in listing order, an entry that is neither
  (\<open>Other\<close>), an entry whose \<^verbatim>\<open>statSync\<close> throws (\<open>NoStat\<close>), and a directory whose
  \<^verbatim>\<open>readdirSync\<close> throws (\<open>NoList\<close>).\<close>

datatype fsnode = File | Dir "(string \<times> fsnode) list" | Other | NoStat | NoList

text \<open>What a plugin's \<^verbatim>\<open>onPublish\<close> does with the three functions it is given.\<close>

datatype pubcall = CallWrite path string | CallCopy path path | CallRead path | CallRaise error

text \<open>
  The collaborators of \<^verbatim>\<open>ESDoc.js\<close>, which are not part of it, as parameters:
  the directory listing, \<^verbatim>\<open>path\<close>, \<^verbatim>\<open>RegExp\<close>, \<^verbatim>\<open>JSON\<close>, the parser
  (\<^verbatim>\<open>ESParser.parse\<close>), the tree walker (\<^verbatim>\<open>ASTUtil.traverse\<close>, as the list of the
  nodes it visits, each with its parent), the doc factory (\<^verbatim>\<open>DocFactory\<close>, with its
  state \<open>'fac\<close>), \<^verbatim>\<open>fs.copySync\<close> and the plugin host.

  Modelled from the spec: the plugin host (\<^verbatim>\<open>Plugin.js\<close> is not part of the source).
  The hooks \<^verbatim>\<open>onStart\<close>, \<^verbatim>\<open>onHandleConfig\<close>, \<^verbatim>\<open>onHandleDocs\<close>, \<^verbatim>\<open>onHandleContent\<close> and
  \<^verbatim>\<open>onComplete\<close> return normally (the hook table of the specification: they may not
  fail); \<^verbatim>\<open>onPublish\<close> may raise, and is given by the calls it makes to \<^verbatim>\<open>write\<close>,
  \<^verbatim>\<open>copy\<close> and \<^verbatim>\<open>read\<close>.

  The logger (\<^verbatim>\<open>InvalidCodeLogger.js\<close> is not part of the source either) is called in
  three \<^verbatim>\<open>catch\<close> blocks, outside any \<^verbatim>\<open>try\<close>. \<^verbatim>\<open>InvalidCodeLogger.showFile(filePath, e)\<close>
  is handed whatever error the parser raised, and is a parameter with a failure path:
  \<open>loggerShowFile env filePath e\<close> is \<open>None\<close> when the report returns and \<open>Some e'\<close>
  when the logger raises \<open>e'\<close> instead (as it may on an error that carries no position in
  the file). The two other reports, \<^verbatim>\<open>InvalidCodeLogger.show(filePath, node)\<close> and
  \<^verbatim>\<open>InvalidCodeLogger.showError(e)\<close>, are modelled from the specification, where they are
  used.
\<close>

record ('ast, 'node, 'fac) env =
  readdirSync :: "path \<Rightarrow> (string \<times> fsnode) list option"
  pathResolve :: "path \<Rightarrow> path \<Rightarrow> path"
  pathResolve1 :: "path \<Rightarrow> path"
  pathRelative :: "path \<Rightarrow> path \<Rightarrow> path"
  pathBasename :: "path \<Rightarrow> string"
  pathSep :: string
  regexValid :: "string \<Rightarrow> bool"
  regexMatch :: "string \<Rightarrow> string \<Rightarrow> bool"
  jsonParsePackage :: "string \<Rightarrow> (string option \<times> string option) option"
  esParse :: "path \<Rightarrow> error + 'ast"
  loggerShowFile :: "path \<Rightarrow> error \<Rightarrow> error option"
  astTraverse :: "'ast \<Rightarrow> ('node \<times> 'node option) list"
  newDocFactory :: "'ast \<Rightarrow> path \<Rightarrow> path \<Rightarrow> string option \<Rightarrow> string option \<Rightarrow> 'fac"
  factoryPush :: "'fac \<Rightarrow> 'node \<Rightarrow> 'node option \<Rightarrow> error + 'fac"
  factoryResults :: "'fac \<Rightarrow> DocObject list"
  stringifyDocs :: "DocObject list \<Rightarrow> string"
  stringifyAst :: "'ast \<Rightarrow> string"
  copySync :: "(path \<rightharpoonup> string) \<Rightarrow> path \<Rightarrow> path \<Rightarrow> error + (path \<rightharpoonup> string)"
  pluginOnHandleConfig :: "ESDocConfig \<Rightarrow> ESDocConfig"
  pluginOnHandleDocs :: "DocObject list \<Rightarrow> DocObject list"
  pluginOnHandleContent :: "string \<Rightarrow> path \<Rightarrow> string"
  pluginOnPublish :: "pubcall list"

text \<open>\<^verbatim>\<open>fs.readFileSync(p)\<close>: the text of the file, or a throw when it cannot be read.\<close>

definition readFileSync :: "path \<Rightarrow> (string, 'ast, 'node) run" where
  "readFileSync p s =
     (case files s p of
        None \<Rightarrow> (Throw (FsError p), emit (EvReadFile p) s)
      | Some text \<Rightarrow> (Return text, emit (EvReadFile p) s))"

text \<open>\<^verbatim>\<open>fs.outputFileSync(p, content)\<close>; the write itself is taken to succeed.\<close>

definition outputFileSync :: "path \<Rightarrow> string \<Rightarrow> (unit, 'ast, 'node) run" where
  "outputFileSync p text s = (Return (), emit (EvWriteFile p text) (s\<lparr>files := (files s)(p \<mapsto> text)\<rparr>))"

section \<open>The synthetic docs\<close>

text \<open>
  \<^verbatim>\<open>_generateForIndex\<close>. The read is not guarded: when it throws, so does the function.
  With \<^verbatim>\<open>config.index\<close> absent, \<^verbatim>\<open>fs.readFileSync(undefined)\<close> throws a TypeError.
\<close>

definition generateForIndex ::
  "('ast, 'node, 'fac) env \<Rightarrow> ESDocConfig \<Rightarrow> (DocObject, 'ast, 'node) run" where
  "generateForIndex env config s =
     (case index config of
        None \<Rightarrow> (Throw TypeError, s)
      | Some indexPath \<Rightarrow>
          andThen (readFileSync indexPath)
            (\<lambda>indexContent s1.
               (Return \<lparr>kind = ''index'', content = indexContent,
                        longname = pathResolve1 env indexPath, name = indexPath,
                        static = True, access = ''public'', docId = None\<rparr>, s1)) s)"

text \<open>
  \<^verbatim>\<open>_generateForPackageJSON\<close>. The read and \<^verbatim>\<open>path.resolve\<close> stand in a
  \<^verbatim>\<open>try\<close> whose \<^verbatim>\<open>catch\<close> ignores the error: both variables then keep the empty
  string.
\<close>

definition generateForPackageJSON ::
  "('ast, 'node, 'fac) env \<Rightarrow> ESDocConfig \<Rightarrow> (DocObject, 'ast, 'node) run" where
  "generateForPackageJSON env config s =
     (let (packageJSON, packagePath, s1) =
            (case package config of
               None \<Rightarrow> ([], [], s)
             | Some p \<Rightarrow>
                 (case readFileSync p s of
                    (Return text, s') \<Rightarrow> (text, pathResolve1 env p, s')
                  | (Throw e, s') \<Rightarrow> ([], [], s')
                  | (Exit n, s') \<Rightarrow> ([], [], s')))
      in (Return \<lparr>kind = ''packageJSON'', content = packageJSON, longname = packagePath,
                   name = pathBasename env packagePath, static = True, access = ''public'',
                   docId = None\<rparr>, s1))"

section \<open>Per-file extraction\<close>

text \<open>
  The callback handed to \<^verbatim>\<open>ASTUtil.traverse\<close>, over the nodes in visiting order:
  \<^verbatim>\<open>factory.push(node, parent)\<close> in a \<^verbatim>\<open>try\<close>; the \<^verbatim>\<open>catch\<close> logs the file and the node
  and throws the error again.

  Modelled from the spec: the report itself, \<^verbatim>\<open>InvalidCodeLogger.show(filePath, node)\<close>,
  which is not part of the source. It logs the node and returns (the specification: the
  node and file are logged for diagnosis and the error is re-raised).
\<close>

fun pushAll ::
  "('ast, 'node, 'fac) env \<Rightarrow> path \<Rightarrow> ('node \<times> 'node option) list \<Rightarrow> 'fac \<Rightarrow> ('fac, 'ast, 'node) run" where
  "pushAll env filePath [] factory s = (Return factory, s)"
| "pushAll env filePath ((node, parent) # rest) factory s =
     (case factoryPush env factory node parent of
        Inl e \<Rightarrow> (Throw e, emit (EvShowNode filePath node) s)
      | Inr factory' \<Rightarrow> pushAll env filePath rest factory' s)"

text \<open>
  \<^verbatim>\<open>_traverse\<close>. \<open>Return None\<close> is \<^verbatim>\<open>return null\<close>. The \<^verbatim>\<open>catch\<close> around the parse
  calls \<^verbatim>\<open>InvalidCodeLogger.showFile\<close> before it returns \<^verbatim>\<open>null\<close>: when the logger
  raises there, its error leaves \<^verbatim>\<open>_traverse\<close>.
\<close>

definition traverse ::
  "('ast, 'node, 'fac) env \<Rightarrow> path \<Rightarrow> path \<Rightarrow> string option \<Rightarrow> string option \<Rightarrow>
     ((DocObject list \<times> 'ast) option, 'ast, 'node) run" where
  "traverse env inDirPath filePath packageName mainFilePath s =
     (let s1 = emit (EvParse filePath) (emit (EvLoggerInfo (''parsing: '' @ filePath)) s)
      in case esParse env filePath of
           Inl e \<Rightarrow>
             (case loggerShowFile env filePath e of
                None \<Rightarrow> (Return None, emit (EvShowFile filePath e) s1)
              | Some e' \<Rightarrow> (Throw e', emit (EvShowFile filePath e) s1))
         | Inr ast \<Rightarrow>
             andThen
               (pushAll env filePath (astTraverse env ast)
                  (newDocFactory env ast inDirPath filePath packageName mainFilePath))
               (\<lambda>factory s2. (Return (Some (factoryResults env factory, ast)), s2)) s1)"

section \<open>File discovery and filtering\<close>

text \<open>
  The two loops of the callback of \<^verbatim>\<open>generate\<close>. \<open>includeLoop\<close> is the value of
  \<^verbatim>\<open>match\<close> after the first loop (set and \<^verbatim>\<open>break\<close> at the first matching pattern);
  \<open>excludeLoop\<close> says whether the second loop returns from the callback. A compiled
  pattern is the pattern string it was compiled from.
\<close>

fun includeLoop :: "('ast, 'node, 'fac) env \<Rightarrow> string list \<Rightarrow> path \<Rightarrow> bool" where
  "includeLoop env [] relativeFilePath = False"
| "includeLoop env (reg # regs) relativeFilePath =
     (if regexMatch env reg relativeFilePath then True else includeLoop env regs relativeFilePath)"

fun excludeLoop :: "('ast, 'node, 'fac) env \<Rightarrow> string list \<Rightarrow> path \<Rightarrow> bool" where
  "excludeLoop env [] relativeFilePath = False"
| "excludeLoop env (reg # regs) relativeFilePath =
     (if regexMatch env reg relativeFilePath then True else excludeLoop env regs relativeFilePath)"

text \<open>The variables of \<^verbatim>\<open>generate\<close> that its callback closes over.\<close>

record closure =
  cSource :: path
  cIncludes :: "string list"
  cExcludes :: "string list"
  cPackageName :: "string option"
  cMainFilePath :: "string option"
  cSourceDirPath :: path

definition callback ::
  "('ast, 'node, 'fac) env \<Rightarrow> closure \<Rightarrow> path \<Rightarrow> (unit, 'ast, 'node) run" where
  "callback env c filePath s =
     (let relativeFilePath = pathRelative env (cSourceDirPath c) filePath
      in if \<not> includeLoop env (cIncludes c) relativeFilePath then (Return (), s)
         else if excludeLoop env (cExcludes c) relativeFilePath then (Return (), s)
         else
           andThen
             (traverse env (cSource c) filePath (cPackageName c) (cMainFilePath c))
             (\<lambda>temp s2.
                case temp of
                  None \<Rightarrow> (Return (), s2)
                | Some (tempResults, ast) \<Rightarrow>
                    (Return (),
                     s2\<lparr>results := results s2 @ tempResults,
                        asts := asts s2 @ [(''source'' @ pathSep env @ relativeFilePath, ast)]\<rparr>))
             (emit (EvConsoleLog (''parse: '' @ filePath)) s))"

text \<open>
  \<^verbatim>\<open>_walk\<close>, on the entries of a directory already listed: \<^verbatim>\<open>statSync\<close> each entry,
  call the callback on a plain file, list and walk a directory, skip anything else.
\<close>

fun walkEntries ::
  "('ast, 'node, 'fac) env \<Rightarrow> (path \<Rightarrow> (unit, 'ast, 'node) run) \<Rightarrow> path \<Rightarrow>
     (string \<times> fsnode) list \<Rightarrow> (unit, 'ast, 'node) run" where
  "walkEntries env cb dirPath [] s = (Return (), s)"
| "walkEntries env cb dirPath ((entry, node) # rest) s =
     (let entryPath = pathResolve env dirPath entry;
          s1 = emit (EvStat entryPath) s
      in case node of
           NoStat \<Rightarrow> (Throw (FsError entryPath), s1)
         | File \<Rightarrow>
             (case cb entryPath s1 of
                (Return u, s2) \<Rightarrow> walkEntries env cb dirPath rest s2
              | (Throw e, s2) \<Rightarrow> (Throw e, s2)
              | (Exit n, s2) \<Rightarrow> (Exit n, s2))
         | Dir entries \<Rightarrow>
             (case walkEntries env cb entryPath entries (emit (EvReadDir entryPath) s1) of
                (Return u, s2) \<Rightarrow> walkEntries env cb dirPath rest s2
              | (Throw e, s2) \<Rightarrow> (Throw e, s2)
              | (Exit n, s2) \<Rightarrow> (Exit n, s2))
         | NoList \<Rightarrow> (Throw (FsError entryPath), emit (EvReadDir entryPath) s1)
         | Other \<Rightarrow> walkEntries env cb dirPath rest s1)"

definition walk ::
  "('ast, 'node, 'fac) env \<Rightarrow> path \<Rightarrow> (path \<Rightarrow> (unit, 'ast, 'node) run) \<Rightarrow> (unit, 'ast, 'node) run" where
  "walk env dirPath cb s =
     (case readdirSync env dirPath of
        None \<Rightarrow> (Throw (FsError dirPath), emit (EvReadDir dirPath) s)
      | Some entries \<Rightarrow> walkEntries env cb dirPath entries (emit (EvReadDir dirPath) s))"

section \<open>Publishing\<close>

text \<open>
  The three functions \<^verbatim>\<open>_publish\<close> hands to \<^verbatim>\<open>Plugin.onPublish\<close>. With
  \<^verbatim>\<open>config.destination\<close> absent, \<^verbatim>\<open>path.resolve(undefined, \<dots>)\<close> throws a TypeError.
\<close>

definition publishWrite ::
  "('ast, 'node, 'fac) env \<Rightarrow> ESDocConfig \<Rightarrow> path \<Rightarrow> string \<Rightarrow> (unit, 'ast, 'node) run" where
  "publishWrite env config filePath text s =
     (case destination config of
        None \<Rightarrow> (Throw TypeError, s)
      | Some dest \<Rightarrow>
          (let filePath' = pathResolve env dest filePath;
               text' = pluginOnHandleContent env text filePath';
               s1 = emit (EvOnHandleContent text filePath') s;
               s2 = emit (EvConsoleLog (''output: '' @ filePath')) s1
           in outputFileSync filePath' text' s2))"

definition publishCopy ::
  "('ast, 'node, 'fac) env \<Rightarrow> ESDocConfig \<Rightarrow> path \<Rightarrow> path \<Rightarrow> (unit, 'ast, 'node) run" where
  "publishCopy env config srcPath destPath s =
     (case destination config of
        None \<Rightarrow> (Throw TypeError, s)
      | Some dest \<Rightarrow>
          (let destPath' = pathResolve env dest destPath;
               s1 = emit (EvCopy srcPath destPath') (emit (EvConsoleLog (''output: '' @ destPath')) s)
           in case copySync env (files s1) srcPath destPath' of
                Inl e \<Rightarrow> (Throw e, s1)
              | Inr files' \<Rightarrow> (Return (), s1\<lparr>files := files'\<rparr>)))"

definition publishRead ::
  "('ast, 'node, 'fac) env \<Rightarrow> ESDocConfig \<Rightarrow> path \<Rightarrow> (string, 'ast, 'node) run" where
  "publishRead env config filePath s =
     (case destination config of
        None \<Rightarrow> (Throw TypeError, s)
      | Some dest \<Rightarrow> readFileSync (pathResolve env dest filePath) s)"

text \<open>
  \<^verbatim>\<open>Plugin.onPublish(write, copy, read)\<close>: the calls of the hook, one after the other;
  an error of a call, or one the hook raises itself, ends it.
\<close>

definition runCall ::
  "('ast, 'node, 'fac) env \<Rightarrow> ESDocConfig \<Rightarrow> pubcall \<Rightarrow> (unit, 'ast, 'node) run" where
  "runCall env config c s =
     (case c of
        CallWrite p text \<Rightarrow> publishWrite env config p text s
      | CallCopy p q \<Rightarrow> publishCopy env config p q s
      | CallRead p \<Rightarrow>
          (case publishRead env config p s of
             (Return text, s1) \<Rightarrow> (Return (), s1)
           | (Throw e, s1) \<Rightarrow> (Throw e, s1)
           | (Exit n, s1) \<Rightarrow> (Exit n, s1))
      | CallRaise e \<Rightarrow> (Throw e, s))"

fun onPublish ::
  "('ast, 'node, 'fac) env \<Rightarrow> ESDocConfig \<Rightarrow> pubcall list \<Rightarrow> (unit, 'ast, 'node) run" where
  "onPublish env config [] s = (Return (), s)"
| "onPublish env config (c # cs) s =
     (case runCall env config c s of
        (Return u, s1) \<Rightarrow> onPublish env config cs s1
      | (Throw e, s1) \<Rightarrow> (Throw e, s1)
      | (Exit n, s1) \<Rightarrow> (Exit n, s1))"

text \<open>
  \<^verbatim>\<open>_publish\<close>: the whole body is a \<^verbatim>\<open>try\<close>; the \<^verbatim>\<open>catch\<close> logs the error
  (\<^verbatim>\<open>InvalidCodeLogger.showError\<close>) and calls \<^verbatim>\<open>process.exit(1)\<close>.

  Modelled from the spec: the report itself, \<^verbatim>\<open>InvalidCodeLogger.showError(e)\<close>, which is
  not part of the source. It logs the error and returns (the specification: an error
  raised inside \<^verbatim>\<open>onPublish\<close> is logged and terminates the process).
\<close>

definition publish :: "('ast, 'node, 'fac) env \<Rightarrow> ESDocConfig \<Rightarrow> (unit, 'ast, 'node) run" where
  "publish env config s =
     (case onPublish env config (pluginOnPublish env) (emit EvOnPublish s) of
        (Return u, s1) \<Rightarrow> (Return (), s1)
      | (Throw e, s1) \<Rightarrow> (Exit 1, emit (EvShowError e) s1)
      | (Exit n, s1) \<Rightarrow> (Exit n, s1))"

section \<open>The pipeline\<close>

text \<open>\<^verbatim>\<open>config.includes.map((v) => new RegExp(v))\<close>: an invalid pattern throws.\<close>

definition compilePatterns :: "('ast, 'node, 'fac) env \<Rightarrow> string list option \<Rightarrow> (string list, 'ast, 'node) run" where
  "compilePatterns env patterns s =
     (case patterns of
        None \<Rightarrow> (Throw TypeError, s)
      | Some vs \<Rightarrow>
          (case find (\<lambda>v. \<not> regexValid env v) vs of
             Some v \<Rightarrow> (Throw (SyntaxError v), s)
           | None \<Rightarrow> (Return vs, s)))"

text \<open>
  The package name and main file (lines 43 to 54 of \<^verbatim>\<open>generate\<close>): read and parsed in
  a \<^verbatim>\<open>try\<close> whose \<^verbatim>\<open>catch\<close> ignores the error.
\<close>

definition readPackage ::
  "('ast, 'node, 'fac) env \<Rightarrow> ESDocConfig \<Rightarrow> (string option \<times> string option, 'ast, 'node) run" where
  "readPackage env config s =
     (if truthy (package config)
      then (case package config of
              None \<Rightarrow> (Return (None, None), s)
            | Some p \<Rightarrow>
                (case readFileSync p s of
                   (Return packageJSON, s1) \<Rightarrow>
                     (case jsonParsePackage env packageJSON of
                        None \<Rightarrow> (Return (None, None), s1)
                      | Some packageConfig \<Rightarrow> (Return packageConfig, s1))
                 | (Throw e, s1) \<Rightarrow> (Return (None, None), s1)
                 | (Exit n, s1) \<Rightarrow> (Return (None, None), s1)))
      else (Return (None, None), s))"

definition pushResult :: "DocObject \<Rightarrow> (unit, 'ast, 'node) run" where
  "pushResult tag s = (Return (), s\<lparr>results := results s @ [tag]\<rparr>)"

definition writeIndexJson :: "('ast, 'node, 'fac) env \<Rightarrow> ESDocConfig \<Rightarrow> (unit, 'ast, 'node) run" where
  "writeIndexJson env config s =
     (case destination config of
        None \<Rightarrow> (Throw TypeError, s)
      | Some dest \<Rightarrow>
          outputFileSync (pathResolve env dest ''index.json'') (stringifyDocs env (results s)) s)"

fun writeAsts ::
  "('ast, 'node, 'fac) env \<Rightarrow> ESDocConfig \<Rightarrow> (path \<times> 'ast) list \<Rightarrow> (unit, 'ast, 'node) run" where
  "writeAsts env config [] s = (Return (), s)"
| "writeAsts env config ((filePath, ast) # rest) s =
     (case destination config of
        None \<Rightarrow> (Throw TypeError, s)
      | Some dest \<Rightarrow>
          (case outputFileSync (pathResolve env dest (''ast/'' @ filePath @ ''.json''))
                  (stringifyAst env ast) s of
             (Return u, s1) \<Rightarrow> writeAsts env config rest s1
           | (Throw e, s1) \<Rightarrow> (Throw e, s1)
           | (Exit n, s1) \<Rightarrow> (Exit n, s1)))"

text \<open>
  \<^verbatim>\<open>generate\<close>, lines 39 to 58, on the configuration that the hook and the defaults
  have produced: the patterns are compiled, the package name and main file are read,
  the accumulators start empty, and the source root is resolved. The result holds the
  variables the callback closes over. With \<^verbatim>\<open>config.source\<close> absent,
  \<^verbatim>\<open>path.resolve(undefined)\<close> throws a TypeError.
\<close>

definition prepare :: "('ast, 'node, 'fac) env \<Rightarrow> ESDocConfig \<Rightarrow> (closure, 'ast, 'node) run" where
  "prepare env config =
     andThen (\<lambda>s. (Return (), emit (EvSetLoggerDebug (debug config = Some True)) s)) (\<lambda>u.
     andThen (compilePatterns env (includes config)) (\<lambda>includes.
     andThen (compilePatterns env (excludes config)) (\<lambda>excludes.
     andThen (readPackage env config) (\<lambda>(packageName, mainFilePath).
     andThen (\<lambda>s. (Return (), s\<lparr>results := [], asts := []\<rparr>)) (\<lambda>u s.
       case source config of
         None \<Rightarrow> (Throw TypeError, s)
       | Some src \<Rightarrow>
           (Return \<lparr>cSource = src, cIncludes = includes, cExcludes = excludes,
                    cPackageName = packageName, cMainFilePath = mainFilePath,
                    cSourceDirPath = pathResolve1 env src\<rparr>, s))))))"

text \<open>Lines 83 to 91: the index doc, then the package doc, each behind its guard.\<close>

definition appendSyntheticDocs :: "('ast, 'node, 'fac) env \<Rightarrow> ESDocConfig \<Rightarrow> (unit, 'ast, 'node) run" where
  "appendSyntheticDocs env config =
     andThen (if truthy (index config)
              then andThen (generateForIndex env config) pushResult
              else (\<lambda>s. (Return (), s))) (\<lambda>u.
     (if truthy (package config)
      then andThen (generateForPackageJSON env config) pushResult
      else (\<lambda>s. (Return (), s))))"

text \<open>
  Lines 93 to 113: duplicate resolution, the \<^verbatim>\<open>onHandleDocs\<close> hook, \<^verbatim>\<open>index.json\<close>, the
  syntax trees, \<^verbatim>\<open>_publish\<close>, and the \<^verbatim>\<open>onComplete\<close> hook.
\<close>

definition finish :: "('ast, 'node, 'fac) env \<Rightarrow> ESDocConfig \<Rightarrow> (unit, 'ast, 'node) run" where
  "finish env config =
     andThen (\<lambda>s. (Return (), s\<lparr>results := resolveDuplication (results s)\<rparr>)) (\<lambda>u.
     andThen (\<lambda>s. (Return (), emit (EvOnHandleDocs (results s))
                                  (s\<lparr>results := pluginOnHandleDocs env (results s)\<rparr>))) (\<lambda>u.
     andThen (writeIndexJson env config) (\<lambda>u.
     andThen (\<lambda>s. writeAsts env config (asts s) s) (\<lambda>u.
     andThen (publish env config) (\<lambda>u s.
       (Return (), emit EvOnComplete s))))))"

text \<open>\<^verbatim>\<open>generate\<close> from line 39 on.\<close>

definition generateWith :: "('ast, 'node, 'fac) env \<Rightarrow> ESDocConfig \<Rightarrow> (unit, 'ast, 'node) run" where
  "generateWith env config =
     andThen (prepare env config) (\<lambda>c.
     andThen (walk env (cSource c) (callback env c)) (\<lambda>u.
     andThen (appendSyntheticDocs env config) (\<lambda>u.
     finish env config)))"

text \<open>
  Predicates for stating the theorems: a tree in which every \<^verbatim>\<open>statSync\<close> and
  \<^verbatim>\<open>readdirSync\<close> succeeds, and the plain files of a tree, named as \<^verbatim>\<open>_walk\<close> names
  them.
\<close>

fun walkable :: "(string \<times> fsnode) list \<Rightarrow> bool" where
  "walkable [] = True"
| "walkable ((entry, node) # rest) =
     (case node of
        NoStat \<Rightarrow> False
      | NoList \<Rightarrow> False
      | Dir entries \<Rightarrow> walkable entries \<and> walkable rest
      | File \<Rightarrow> walkable rest
      | Other \<Rightarrow> walkable rest)"

fun walkFiles :: "('ast, 'node, 'fac) env \<Rightarrow> path \<Rightarrow> (string \<times> fsnode) list \<Rightarrow> path list" where
  "walkFiles env dirPath [] = []"
| "walkFiles env dirPath ((entry, node) # rest) =
     (case node of
        File \<Rightarrow> [pathResolve env dirPath entry]
      | Dir entries \<Rightarrow> walkFiles env (pathResolve env dirPath entry) entries
      | Other \<Rightarrow> []
      | NoStat \<Rightarrow> []
      | NoList \<Rightarrow> []) @ walkFiles env dirPath rest"

text \<open>
  For stating what a run does file by file. \<open>pushes\<close> is the doc factory after the
  pushes of the nodes of a list, one after the other, when none of them raises.
  \<open>selected\<close> says that a file passes the two filters of the callback. \<open>extracts\<close> says
  that the extraction of a file returns: its parse raises and the logger returns from
  reporting it, or it parses and no push raises. \<open>fileDocs\<close> and \<open>fileAsts\<close> are what a
  file whose extraction returns adds to \<open>results\<close> and to \<open>asts\<close>: nothing when it is not
  selected or does not parse. \<open>parsedFiles\<close> are the files handed to the parser, in the
  order of a trace; \<open>kept\<close> is what the stages after the walk leave alone.
\<close>

fun pushes ::
  "('ast, 'node, 'fac) env \<Rightarrow> ('node \<times> 'node option) list \<Rightarrow> 'fac \<Rightarrow> 'fac option" where
  "pushes env [] factory = Some factory"
| "pushes env ((node, parent) # rest) factory =
     (case factoryPush env factory node parent of
        Inl e \<Rightarrow> None
      | Inr factory' \<Rightarrow> pushes env rest factory')"

definition selected :: "('ast, 'node, 'fac) env \<Rightarrow> closure \<Rightarrow> path \<Rightarrow> bool" where
  "selected env c filePath =
     (includeLoop env (cIncludes c) (pathRelative env (cSourceDirPath c) filePath) \<and>
      \<not> excludeLoop env (cExcludes c) (pathRelative env (cSourceDirPath c) filePath))"

definition fileDocs :: "('ast, 'node, 'fac) env \<Rightarrow> closure \<Rightarrow> path \<Rightarrow> DocObject list" where
  "fileDocs env c filePath =
     (if selected env c filePath
      then (case esParse env filePath of
              Inl e \<Rightarrow> []
            | Inr ast \<Rightarrow>
                (case pushes env (astTraverse env ast)
                        (newDocFactory env ast (cSource c) filePath (cPackageName c) (cMainFilePath c)) of
                   None \<Rightarrow> []
                 | Some factory \<Rightarrow> factoryResults env factory))
      else [])"

definition fileAsts :: "('ast, 'node, 'fac) env \<Rightarrow> closure \<Rightarrow> path \<Rightarrow> (path \<times> 'ast) list" where
  "fileAsts env c filePath =
     (if selected env c filePath
      then (case esParse env filePath of
              Inl e \<Rightarrow> []
            | Inr ast \<Rightarrow>
                [(''source'' @ pathSep env @ pathRelative env (cSourceDirPath c) filePath, ast)])
      else [])"

definition extracts :: "('ast, 'node, 'fac) env \<Rightarrow> closure \<Rightarrow> path \<Rightarrow> bool" where
  "extracts env c filePath =
     (case esParse env filePath of
        Inl e \<Rightarrow> loggerShowFile env filePath e = None
      | Inr ast \<Rightarrow>
          pushes env (astTraverse env ast)
            (newDocFactory env ast (cSource c) filePath (cPackageName c) (cMainFilePath c)) \<noteq> None)"

fun parsedFiles :: "'node event list \<Rightarrow> path list" where
  "parsedFiles [] = []"
| "parsedFiles (EvParse filePath # evs) = filePath # parsedFiles evs"
| "parsedFiles (ev # evs) = parsedFiles evs"

definition kept :: "('ast, 'node) state \<Rightarrow> (path \<times> 'ast) list \<times> path list" where
  "kept s = (asts s, parsedFiles (trace s))"

text \<open>
  \<^verbatim>\<open>generate\<close>: the two assertions, the plugin host's start, the
  \<^verbatim>\<open>onHandleConfig\<close> hook on the caller's configuration, then the defaults on what the
  hook returned (\<^verbatim>\<open>_deprecatedConfig\<close> does nothing), then the rest.
\<close>

definition generate :: "('ast, 'node, 'fac) env \<Rightarrow> ESDocConfig \<Rightarrow> (unit, 'ast, 'node) run" where
  "generate env config s =
     (if \<not> truthy (source config) then (Throw AssertionError, s)
      else if \<not> truthy (destination config) then (Throw AssertionError, s)
      else
        (let s1 = emit (EvPluginInit (plugins config)) s;
             s2 = emit EvOnStart s1;
             s3 = emit (EvOnHandleConfig config) s2;
             config1 = pluginOnHandleConfig env config;
             config2 = setDefaultConfig config1
         in generateWith env config2 s3))"

section \<open>A small project for the concrete checks\<close>

text \<open>
  A source root \<^verbatim>\<open>./src\<close> with \<^verbatim>\<open>a.js\<close> (parses to one node, from which the factory
  makes one function doc), \<^verbatim>\<open>b.js\<close> (the parser raises), and a directory \<^verbatim>\<open>lib\<close>
  with \<^verbatim>\<open>c.config.js\<close> and \<^verbatim>\<open>notes.txt\<close>. A syntax tree is the path of its file, a
  node a string, the factory's state the docs pushed so far. The matcher knows the two
  default patterns.
\<close>

definition endsWith :: "string \<Rightarrow> string \<Rightarrow> bool" where
  "endsWith ending str = (drop (length str - length ending) str = ending)"

definition exMatch :: "string \<Rightarrow> string \<Rightarrow> bool" where
  "exMatch reg text =
     (if reg = backslash # ''.(js|es6)$'' then endsWith ''.js'' text \<or> endsWith ''.es6'' text
      else if reg = backslash # ''.config'' @ backslash # ''.(js|es6)$''
      then endsWith ''.config.js'' text \<or> endsWith ''.config.es6'' text
      else False)"

definition exEnv :: "(string, string, DocObject list) env" where
  "exEnv =
     \<lparr>readdirSync = (\<lambda>p. if p = ''./src''
                          then Some [(''a.js'', File), (''b.js'', File),
                                     (''lib'', Dir [(''c.config.js'', File), (''notes.txt'', File)])]
                          else None),
      pathResolve = (\<lambda>a b. a @ ''/'' @ b),
      pathResolve1 = (\<lambda>a. a),
      pathRelative = (\<lambda>a b. drop (length a + 1) b),
      pathBasename = (\<lambda>p. rev (takeWhile (\<lambda>c. c \<noteq> CHR ''/'') (rev p))),
      pathSep = ''/'',
      regexValid = (\<lambda>v. True),
      regexMatch = exMatch,
      jsonParsePackage = (\<lambda>text. None),
      esParse = (\<lambda>p. if p = ''./src/b.js'' then Inl (Raised ''Unexpected token'') else Inr p),
      loggerShowFile = (\<lambda>p e. None),
      astTraverse = (\<lambda>ast. [(ast, None)]),
      newDocFactory = (\<lambda>ast inDirPath filePath packageName mainFilePath. []),
      factoryPush = (\<lambda>factory node parent. Inr (factory @ [mkDoc ''function'' (node @ ''~foo'') ''1''])),
      factoryResults = (\<lambda>factory. factory),
      stringifyDocs = (\<lambda>docs. concat (map (\<lambda>d. kind d @ '' '' @ longname d @ ''; '') docs)),
      stringifyAst = (\<lambda>ast. ast),
      copySync = (\<lambda>fs src dst. Inr fs),
      pluginOnHandleConfig = (\<lambda>config. config),
      pluginOnHandleDocs = (\<lambda>docs. docs),
      pluginOnHandleContent = (\<lambda>text p. text),
      pluginOnPublish = []\<rparr>"

definition exConfig :: ESDocConfig where
  "exConfig =
     \<lparr>source = Some ''./src'', destination = Some ''./out'', includes = None, excludes = None,
      index = None, package = None, plugins = None, debug = None\<rparr>"

definition exState :: "(string, string) state" where
  "exState =
     \<lparr>results = [], asts = [],
      files = [''./README.md'' \<mapsto> ''# Project'', ''./package.json'' \<mapsto> ''{}''],
      trace = []\<rparr>"

definition exStateNoReadme :: "(string, string) state" where
  "exStateNoReadme = \<lparr>results = [], asts = [], files = Map.empty, trace = []\<rparr>"

definition exClosure :: closure where
  "exClosure =
     \<lparr>cSource = ''./src'', cIncludes = [backslash # ''.(js|es6)$''],
      cExcludes = [backslash # ''.config'' @ backslash # ''.(js|es6)$''],
      cPackageName = None, cMainFilePath = None, cSourceDirPath = ''./src''\<rparr>"

text \<open>
  The same project with two more source files, \<^verbatim>\<open>lib/d.js\<close> and \<^verbatim>\<open>e.js\<close>, walked after
  \<^verbatim>\<open>b.js\<close>. In \<open>exEnvBug\<close> a syntax tree has three nodes, and the factory raises on the
  method node of \<^verbatim>\<open>lib/d.js\<close>. In \<open>exEnvUnreadable\<close> the file \<^verbatim>\<open>b.js\<close> cannot be read: the
  parser raises the read error, which carries no position in the file, and the logger,
  asked to report it, raises in turn.
\<close>

definition exTree :: "(string \<times> fsnode) list" where
  "exTree =
     [(''a.js'', File), (''b.js'', File),
      (''lib'', Dir [(''c.config.js'', File), (''notes.txt'', File), (''d.js'', File)]),
      (''e.js'', File)]"

definition exEnvTree :: "(string, string, DocObject list) env" where
  "exEnvTree = exEnv\<lparr>readdirSync := (\<lambda>p. if p = ''./src'' then Some exTree else None)\<rparr>"

definition exEnvBug :: "(string, string, DocObject list) env" where
  "exEnvBug =
     exEnvTree
       \<lparr>astTraverse :=
          (\<lambda>ast. [(ast, None), (ast @ ''#class'', Some ast),
                  (ast @ ''#method'', Some (ast @ ''#class''))]),
        factoryPush :=
          (\<lambda>factory node parent.
             if node = ''./src/lib/d.js#method'' then Inl (Raised ''Cannot read property'')
             else Inr (factory @ [mkDoc ''function'' (node @ ''~foo'') ''1'']))\<rparr>"


definition exEnvPublish :: "(string, string, DocObject list) env" where
  "exEnvPublish =
     exEnv\<lparr>pluginOnPublish := [CallWrite ''index.html'' ''<html>'', CallRaise (Raised ''render failed'')]\<rparr>"

section \<open>Properties of duplicate resolution\<close>

lemma removeIdsStep_append:
  "removeIdsStep docs acc m = acc @ removeIdsStep docs [] m"
  by (simp add: removeIdsStep_def Let_def split: option.splits)

lemma foldl_removeIdsStep:
  "foldl (removeIdsStep docs) acc ms = acc @ concat (map (removeIdsStep docs []) ms)"
proof (induction ms arbitrary: acc)
  case Nil
  show ?case by simp
next
  case (Cons m ms)
  have "foldl (removeIdsStep docs) acc (m # ms) =
        foldl (removeIdsStep docs) (removeIdsStep docs acc m) ms"
    by simp
  also have "\<dots> = removeIdsStep docs acc m @ concat (map (removeIdsStep docs []) ms)"
    by (rule Cons.IH)
  also have "\<dots> = acc @ concat (map (removeIdsStep docs []) (m # ms))"
    by (subst removeIdsStep_append) simp
  finally show ?case .
qed

text \<open>A doc is dropped exactly when some member doc's iteration pushed its identifier.\<close>

lemma resolveDuplication_filter:
  "resolveDuplication docs =
     filter (\<lambda>doc. \<forall>m \<in> set docs. kind m = ''member'' \<longrightarrow>
                       docId doc \<notin> set (removeIdsStep docs [] m)) docs"
  unfolding resolveDuplication_def Let_def foldl_removeIdsStep
  by (rule filter_cong) auto

lemma find_nonmember_Some:
  assumes "d \<in> set docs" "longname d = l" "kind d \<noteq> ''member''"
  shows "\<exists>y. find (\<lambda>doc. longname doc = l \<and> kind doc \<noteq> ''member'') docs = Some y"
proof (cases "find (\<lambda>doc. longname doc = l \<and> kind doc \<noteq> ''member'') docs")
  case None
  with assms show ?thesis by (auto simp: find_None_iff)
next
  case (Some y)
  then show ?thesis by blast
qed

lemma step_nonmember_present:
  assumes "d \<in> set docs" "longname d = longname m" "kind d \<noteq> ''member''"
  shows "removeIdsStep docs [] m = [docId m]"
  using find_nonmember_Some [OF assms(1) assms(2) assms(3)]
  by (auto simp: removeIdsStep_def)

lemma insertBy_compareFn: "sorted ys \<Longrightarrow> insertBy compareFn x ys = insort x ys"
  by (induction ys) (auto simp: compareFn_def insort_is_Cons)

lemma sortBy_compareFn: "sortBy compareFn xs = sort xs"
proof (induction xs)
  case Nil
  show ?case by (simp add: sortBy_def)
next
  case (Cons x xs)
  have "sortBy compareFn (x # xs) = insertBy compareFn x (sortBy compareFn xs)"
    by (simp add: sortBy_def)
  also have "\<dots> = insertBy compareFn x (sort xs)" by (simp add: Cons.IH)
  also have "\<dots> = insort x (sort xs)" by (rule insertBy_compareFn) simp
  finally show ?case by simp
qed

lemma arraySort_compareFn:
  "arraySort compareFn xs =
     map Some (sort (map the (filter (\<lambda>x. x \<noteq> None) xs))) @ filter (\<lambda>x. x = None) xs"
  by (simp add: arraySort_def sortBy_compareFn)

lemma map_Some_the: "map Some (map the (filter (\<lambda>x. x \<noteq> None) xs)) = filter (\<lambda>x. x \<noteq> None) xs"
  by (induction xs) auto

lemma mset_arraySort: "mset (arraySort compareFn xs) = mset xs"
proof -
  have b: "mset (map Some (sortBy compareFn ys)) = mset (map Some ys)" for ys :: "string list"
    by (simp add: sortBy_compareFn)
  have "mset (arraySort compareFn xs) =
        mset (map Some (map the (filter (\<lambda>x. x \<noteq> None) xs))) + mset (filter (\<lambda>x. x = None) xs)"
    by (simp only: arraySort_def mset_append b)
  also have "\<dots> = mset (filter (\<lambda>x. x \<noteq> None) xs) + mset (filter (\<lambda>x. \<not> x \<noteq> None) xs)"
    by (simp only: map_Some_the not_not)
  also have "\<dots> = mset xs"
    by (induction xs) auto
  finally show ?thesis .
qed

lemma set_arraySort: "set (arraySort compareFn xs) = set xs"
  using mset_arraySort [of xs] by (metis set_mset_mset)

lemma length_arraySort: "length (arraySort compareFn xs) = length xs"
  using mset_arraySort [of xs] by (metis size_mset)


lemma find_nonmember_None:
  "find (\<lambda>doc. longname doc = l \<and> kind doc \<noteq> ''member'') docs = None \<longleftrightarrow>
   (\<forall>d\<in>set docs. longname d = l \<longrightarrow> kind d = ''member'')"
  by (auto simp: find_None_iff)

lemma step_no_nonmember:
  assumes "\<forall>d\<in>set docs. longname d = longname m \<longrightarrow> kind d = ''member''"
  shows "removeIdsStep docs [] m =
     (if length (filter (\<lambda>doc. longname doc = longname m \<and> kind doc = ''member'') docs) > 1
      then tl (arraySort compareFn
             (map docId (filter (\<lambda>doc. longname doc = longname m \<and> kind doc = ''member'') docs)))
      else [])"
proof -
  have "find (\<lambda>doc. longname doc = longname m \<and> kind doc \<noteq> ''member'') docs = None"
    using assms by (simp only: find_nonmember_None)
  then show ?thesis by (simp add: removeIdsStep_def Let_def)
qed

lemma set_tl_subset: "set (tl xs) \<subseteq> set xs"
  by (cases xs) auto

lemma step_subset:
  "set (removeIdsStep docs [] m) \<subseteq>
     insert (docId m) (docId ` {x \<in> set docs. longname x = longname m \<and> kind x = ''member''})"
proof (cases "find (\<lambda>doc. longname doc = longname m \<and> kind doc \<noteq> ''member'') docs")
  case (Some y)
  then show ?thesis by (simp add: removeIdsStep_def)
next
  case None
  let ?dup = "filter (\<lambda>doc. longname doc = longname m \<and> kind doc = ''member'') docs"
  have "set (removeIdsStep docs [] m) \<subseteq> set (arraySort compareFn (map docId ?dup))"
    using None set_tl_subset [of "arraySort compareFn (map docId ?dup)"]
    by (auto simp: removeIdsStep_def Let_def)
  also have "\<dots> = docId ` set ?dup" by (simp add: set_arraySort)
  finally show ?thesis by auto
qed

lemma member_with_nonmember_removed:
  assumes "m \<in> set docs" "kind m = ''member''"
    and "d \<in> set docs" "kind d \<noteq> ''member''" "longname d = longname m"
  shows "m \<notin> set (resolveDuplication docs)"
proof -
  have "removeIdsStep docs [] m = [docId m]"
    using assms(3) assms(5) assms(4) by (rule step_nonmember_present)
  then show ?thesis
    using assms(1) assms(2) by (auto simp: resolveDuplication_filter)
qed

lemma removed_ids_are_member_ids:
  assumes "m \<in> set docs" "kind m = ''member''" "i \<in> set (removeIdsStep docs [] m)"
  shows "\<exists>x \<in> set docs. kind x = ''member'' \<and> longname x = longname m \<and> docId x = i"
  using step_subset [of docs m] assms by auto

lemma nonmember_kept:
  assumes "distinct (map docId docs)" "d \<in> set docs" "kind d \<noteq> ''member''"
  shows "d \<in> set (resolveDuplication docs)"
proof -
  have inj: "inj_on docId (set docs)" using assms(1) by (simp add: distinct_map)
  have "docId d \<notin> set (removeIdsStep docs [] m)" if m1: "m \<in> set docs" and m2: "kind m = ''member''" for m
  proof
    assume "docId d \<in> set (removeIdsStep docs [] m)"
    then obtain x where "x \<in> set docs" "kind x = ''member''" "docId x = docId d"
      using removed_ids_are_member_ids [OF m1 m2] by blast
    with inj assms(2) have "x = d" by (auto dest: inj_onD)
    with \<open>kind x = ''member''\<close> assms(3) show False by simp
  qed
  then show ?thesis using assms(2) by (auto simp: resolveDuplication_filter)
qed

lemma nonmembers_unchanged:
  assumes "distinct (map docId docs)"
  shows "filter (\<lambda>d. kind d \<noteq> ''member'') (resolveDuplication docs) =
         filter (\<lambda>d. kind d \<noteq> ''member'') docs"
proof -
  define P :: "DocObject \<Rightarrow> bool" where "P = (\<lambda>doc. \<forall>m \<in> set docs. kind m = ''member'' \<longrightarrow>
                       docId doc \<notin> set (removeIdsStep docs [] m))"
  have R: "resolveDuplication docs = filter P docs"
    unfolding P_def by (rule resolveDuplication_filter)
  have "P d" if "d \<in> set docs" "kind d \<noteq> ''member''" for d
    using nonmember_kept [OF assms that] by (simp add: R)
  then have "filter (\<lambda>d. kind d \<noteq> ''member'') (filter P docs) =
             filter (\<lambda>d. kind d \<noteq> ''member'') docs"
    by (auto simp: filter_filter intro: filter_cong)
  then show ?thesis by (simp only: R)
qed

lemma filter_not_in_tl: "length (filter (\<lambda>i. i \<notin> set (tl S)) S) \<le> 1"
proof (cases S)
  case Nil
  then show ?thesis by simp
next
  case (Cons h t)
  have "filter (\<lambda>i. i \<notin> set t) t = []" by (simp add: filter_empty_conv)
  with Cons show ?thesis by simp
qed

lemma survivors_le_one:
  assumes "mset S = mset ids"
  shows "length (filter (\<lambda>i. i \<notin> set (tl S)) ids) \<le> 1"
proof -
  have "length (filter (\<lambda>i. i \<notin> set (tl S)) ids) =
        size (filter_mset (\<lambda>i. i \<notin> set (tl S)) (mset ids))"
    by (simp only: mset_filter [symmetric] size_mset)
  also have "\<dots> = size (filter_mset (\<lambda>i. i \<notin> set (tl S)) (mset S))"
    by (simp only: assms)
  also have "\<dots> = length (filter (\<lambda>i. i \<notin> set (tl S)) S)"
    by (simp only: mset_filter [symmetric] size_mset)
  finally show ?thesis using filter_not_in_tl [of S] by simp
qed

lemma length_filter_mono:
  assumes "\<And>x. x \<in> set xs \<Longrightarrow> P x \<Longrightarrow> Q x"
  shows "length (filter P xs) \<le> length (filter Q xs)"
  using assms by (induction xs) auto

lemma resolved_member_step_Nil:
  assumes mR: "m \<in> set (resolveDuplication docs)" and mk: "kind m = ''member''"
  shows "removeIdsStep (resolveDuplication docs) [] m = []"
proof -
  define P :: "DocObject \<Rightarrow> bool" where "P = (\<lambda>doc. \<forall>m \<in> set docs. kind m = ''member'' \<longrightarrow>
                       docId doc \<notin> set (removeIdsStep docs [] m))"
  define isDup :: "DocObject \<Rightarrow> bool"
    where "isDup = (\<lambda>doc. longname doc = longname m \<and> kind doc = ''member'')"
  have R: "resolveDuplication docs = filter P docs"
    unfolding P_def by (rule resolveDuplication_filter)
  from mR have md: "m \<in> set docs" and Pm: "P m" by (simp_all add: R)
  have nonmem: "\<forall>d\<in>set docs. longname d = longname m \<longrightarrow> kind d = ''member''"
  proof (intro ballI impI)
    fix d assume d: "d \<in> set docs" "longname d = longname m"
    show "kind d = ''member''"
    proof (rule ccontr)
      assume "kind d \<noteq> ''member''"
      with md mk d have "m \<notin> set (resolveDuplication docs)"
        by (intro member_with_nonmember_removed [of m docs d]) simp_all
      with mR show False by simp
    qed
  qed
  then have nonmemR: "\<forall>d\<in>set (resolveDuplication docs). longname d = longname m \<longrightarrow> kind d = ''member''"
    by (simp add: R)
  have dupR: "filter isDup (resolveDuplication docs) = filter P (filter isDup docs)"
    by (auto simp: R filter_filter intro: filter_cong)
  have "length (filter P (filter isDup docs)) \<le> 1"
  proof (cases "length (filter isDup docs) > 1")
    case False
    have "length (filter P (filter isDup docs)) \<le> length (filter isDup docs)"
      by (rule length_filter_le)
    with False show ?thesis by simp
  next
    case True
    define S where "S = arraySort compareFn (map docId (filter isDup docs))"
    have stepm: "removeIdsStep docs [] m = tl S"
      using True step_no_nonmember [OF nonmem] by (simp add: S_def isDup_def)
    have "length (filter P (filter isDup docs)) \<le>
          length (filter (\<lambda>x. docId x \<notin> set (tl S)) (filter isDup docs))"
    proof (rule length_filter_mono)
      fix x assume "x \<in> set (filter isDup docs)" "P x"
      then show "docId x \<notin> set (tl S)"
        using md mk stepm by (auto simp: P_def)
    qed
    also have "\<dots> = length (filter (\<lambda>i. i \<notin> set (tl S)) (map docId (filter isDup docs)))"
      by (simp add: filter_map comp_def)
    also have "\<dots> \<le> 1"
      by (rule survivors_le_one) (simp add: S_def mset_arraySort)
    finally show ?thesis .
  qed
  then have "\<not> length (filter isDup (resolveDuplication docs)) > 1"
    by (simp add: dupR)
  then show ?thesis
    using step_no_nonmember [OF nonmemR] by (simp add: isDup_def)
qed

lemma resolveDuplication_idem:
  "resolveDuplication (resolveDuplication docs) = resolveDuplication docs"
proof -
  have "filter (\<lambda>doc. \<forall>m \<in> set (resolveDuplication docs). kind m = ''member'' \<longrightarrow>
                       docId doc \<notin> set (removeIdsStep (resolveDuplication docs) [] m))
          (resolveDuplication docs) = resolveDuplication docs"
    by (rule filter_True) (simp add: resolved_member_step_Nil)
  then show ?thesis
    by (subst resolveDuplication_filter)
qed

lemma step_no_nonmember_tl:
  assumes "\<forall>d\<in>set docs. longname d = longname m \<longrightarrow> kind d = ''member''"
  shows "removeIdsStep docs [] m =
     tl (arraySort compareFn (map docId (filter (\<lambda>doc. longname doc = longname m) docs)))"
proof -
  let ?dup = "filter (\<lambda>doc. longname doc = longname m \<and> kind doc = ''member'') docs"
  have dup: "?dup = filter (\<lambda>doc. longname doc = longname m) docs"
    using assms by (auto intro: filter_cong)
  have "tl (arraySort compareFn (map docId ?dup)) = []" if "\<not> length ?dup > 1"
  proof -
    have "length (arraySort compareFn (map docId ?dup)) \<le> 1"
      using that by (simp only: length_arraySort length_map)
    then show ?thesis
      by (cases "arraySort compareFn (map docId ?dup)") simp_all
  qed
  then have "removeIdsStep docs [] m = tl (arraySort compareFn (map docId ?dup))"
    using step_no_nonmember [OF assms] by (simp split: if_splits)
  then show ?thesis by (simp only: dup)
qed

lemma arraySort_2_10_3:
  assumes "mset ids = {#Some ''2'', Some ''10'', Some ''3''#}"
  shows "arraySort compareFn ids = [Some ''10'', Some ''2'', Some ''3'']"
proof -
  have s: "set ids = {Some ''2'', Some ''10'', Some ''3''}"
    using assms by (metis set_mset_mset set_mset_add_mset_insert set_mset_empty)
  then have f1: "filter (\<lambda>x. x \<noteq> None) ids = ids" and f2: "filter (\<lambda>x. x = None) ids = []"
    by (auto simp: filter_empty_conv intro: filter_True)
  have "mset (map the ids) = image_mset the (mset ids)" by simp
  also have "\<dots> = {#''2'', ''10'', ''3''#}" by (simp only: assms) simp
  finally have "mset [''10'', ''2'', ''3''] = mset (map the ids)" by simp
  then have "sort (map the ids) = [''10'', ''2'', ''3'']"
    by (rule properties_for_sort) simp
  moreover have "arraySort compareFn ids = map Some (sort (map the ids)) @ []"
    by (simp only: arraySort_compareFn f1 f2)
  ultimately show ?thesis by simp
qed

lemma filter_singleton_by_key:
  assumes "length (filter P xs) = 1"
  shows "\<exists>x. x \<in> set xs \<and> P x \<and> filter P xs = [x]"
proof -
  obtain x where x: "filter P xs = [x]"
    using assms by (cases "filter P xs") auto
  then have "x \<in> set (filter P xs)" by simp
  then have "x \<in> set xs \<and> P x" by (simp only: set_filter mem_Collect_eq)
  with x show ?thesis by blast
qed

lemma C1_core:
  assumes three: "mset (map docId (filter (\<lambda>d. longname d = Y) docs)) =
                    {#Some ''2'', Some ''10'', Some ''3''#}"
    and members: "\<forall>d\<in>set docs. longname d = Y \<longrightarrow> kind d = ''member''"
    and ten: "\<forall>d\<in>set docs. docId d = Some ''10'' \<longrightarrow> longname d = Y"
  shows "\<exists>d. d \<in> set docs \<and> docId d = Some ''10'' \<and> longname d = Y \<and> kind d = ''member'' \<and>
             filter (\<lambda>x. longname x = Y) (resolveDuplication docs) = [d]"
proof -
  define P :: "DocObject \<Rightarrow> bool" where "P = (\<lambda>doc. \<forall>m \<in> set docs. kind m = ''member'' \<longrightarrow>
                       docId doc \<notin> set (removeIdsStep docs [] m))"
  have R: "resolveDuplication docs = filter P docs"
    unfolding P_def by (rule resolveDuplication_filter)
  let ?atY = "filter (\<lambda>d. longname d = Y) docs"
  have idsY: "docId ` {d \<in> set docs. longname d = Y} = {Some ''2'', Some ''10'', Some ''3''}"
  proof -
    have "set (map docId ?atY) = set_mset {#Some ''2'', Some ''10'', Some ''3''#}"
      by (simp only: three [symmetric] set_mset_mset)
    then show ?thesis by (simp add: image_def conj_commute)
  qed
  have stepY: "removeIdsStep docs [] m = [Some ''2'', Some ''3'']"
    if "m \<in> set docs" "longname m = Y" for m
  proof -
    have "\<forall>d\<in>set docs. longname d = longname m \<longrightarrow> kind d = ''member''"
      using members that by simp
    then have "removeIdsStep docs [] m =
      tl (arraySort compareFn (map docId (filter (\<lambda>doc. longname doc = longname m) docs)))"
      by (rule step_no_nonmember_tl)
    then show ?thesis using that(2) arraySort_2_10_3 [OF three] by simp
  qed
  have keep: "P d \<longleftrightarrow> docId d = Some ''10''" if d: "d \<in> set docs" "longname d = Y" for d
  proof
    assume "P d"
    moreover have "kind d = ''member''" using members d by simp
    ultimately have "docId d \<notin> set (removeIdsStep docs [] d)" using d by (simp add: P_def)
    then have "docId d \<noteq> Some ''2''" "docId d \<noteq> Some ''3''"
      using stepY [OF d] by auto
    moreover have "docId d \<in> {Some ''2'', Some ''10'', Some ''3''}"
      using d idsY by blast
    ultimately show "docId d = Some ''10''" by simp
  next
    assume d10: "docId d = Some ''10''"
    have "docId d \<notin> set (removeIdsStep docs [] m)" if m: "m \<in> set docs" "kind m = ''member''" for m
    proof (cases "longname m = Y")
      case True
      then show ?thesis using stepY [OF m(1)] d10 by simp
    next
      case False
      show ?thesis
      proof
        assume "docId d \<in> set (removeIdsStep docs [] m)"
        then obtain x where "x \<in> set docs" "longname x = longname m" "docId x = docId d"
          using removed_ids_are_member_ids [OF m] by blast
        with ten d10 False show False by auto
      qed
    qed
    then show "P d" by (simp add: P_def)
  qed
  have "filter (\<lambda>x. longname x = Y) (resolveDuplication docs) =
        filter (\<lambda>x. docId x = Some ''10'') ?atY"
    using keep by (auto simp: R filter_filter intro: filter_cong)
  moreover have "length (filter (\<lambda>x. docId x = Some ''10'') ?atY) = 1"
  proof -
    have "length (filter (\<lambda>x. docId x = Some ''10'') ?atY) =
          length (filter (\<lambda>i. i = Some ''10'') (map docId ?atY))"
      by (simp only: filter_map comp_def length_map)
    also have "\<dots> = size (filter_mset (\<lambda>i. i = Some ''10'') (mset (map docId ?atY)))"
      by (simp only: mset_filter [symmetric] size_mset)
    also have "\<dots> = 1" by (simp only: three) simp
    finally show ?thesis .
  qed
  ultimately obtain d where "d \<in> set ?atY" "docId d = Some ''10''"
      "filter (\<lambda>x. longname x = Y) (resolveDuplication docs) = [d]"
    using filter_singleton_by_key [of "\<lambda>x. docId x = Some ''10''" ?atY] by auto
  then show ?thesis using members by auto
qed

lemma distinct_key_filter_length:
  assumes "distinct (map f xs)" "y \<in> f ` set xs"
  shows "length (filter (\<lambda>x. f x = y) xs) = 1"
  using assms
proof (induction xs)
  case Nil
  then show ?case by simp
next
  case (Cons a xs)
  show ?case
  proof (cases "f a = y")
    case True
    with Cons.prems have "filter (\<lambda>x. f x = y) xs = []"
      by (force simp: filter_empty_conv image_iff)
    with True show ?thesis by simp
  next
    case False
    with Cons show ?thesis by auto
  qed
qed

text \<open>
  The tie-break in general: at a longname that holds member docs only, each with an
  identifier, in a sequence with unique identifiers, the one doc that is left is the doc
  whose identifier comes first when the identifiers are sorted as strings.
\<close>

lemma duplicate_members_least_survives:
  assumes dist: "distinct (map docId docs)"
    and members: "\<forall>d\<in>set docs. longname d = L \<longrightarrow> kind d = ''member'' \<and> docId d \<noteq> None"
    and nonempty: "filter (\<lambda>d. longname d = L) docs \<noteq> []"
  shows "\<exists>d. d \<in> set docs \<and> longname d = L \<and>
             docId d = Some (hd (sort (map (\<lambda>x. the (docId x)) (filter (\<lambda>d. longname d = L) docs)))) \<and>
             filter (\<lambda>x. longname x = L) (resolveDuplication docs) = [d]"
proof -
  define P :: "DocObject \<Rightarrow> bool" where "P = (\<lambda>doc. \<forall>m \<in> set docs. kind m = ''member'' \<longrightarrow>
                       docId doc \<notin> set (removeIdsStep docs [] m))"
  have R: "resolveDuplication docs = filter P docs"
    unfolding P_def by (rule resolveDuplication_filter)
  define atL where "atL = filter (\<lambda>d. longname d = L) docs"
  define ids where "ids = map docId atL"
  define S where "S = arraySort compareFn ids"
  have inj: "inj_on docId (set docs)" using dist by (simp add: distinct_map)
  have allSome: "\<forall>i\<in>set ids. i \<noteq> None"
    using members by (auto simp: ids_def atL_def)
  then have f1: "filter (\<lambda>x. x \<noteq> None) ids = ids" and f2: "filter (\<lambda>x. x = None) ids = []"
    by (auto simp: filter_empty_conv intro: filter_True)
  have "S = map Some (sort (map the ids)) @ []"
    unfolding S_def by (simp only: arraySort_compareFn f1 f2)
  then have S_sort: "S = map Some (sort (map the ids))" by simp
  have "ids \<noteq> []" using nonempty by (simp add: ids_def atL_def)
  then have "sort (map the ids) \<noteq> []" by (metis length_sort length_map length_0_conv)
  then have hdS: "hd S = Some (hd (sort (map the ids)))" and "S \<noteq> []"
    by (simp_all add: S_sort hd_map)
  then obtain t where St: "S = hd S # t" by (cases S) auto
  have msetS: "mset S = mset ids" unfolding S_def by (rule mset_arraySort)
  have "distinct (map docId atL)"
    unfolding atL_def using dist by (rule distinct_map_filter)
  then have dids: "distinct ids" by (simp add: ids_def)
  then have "distinct S" using msetS by (metis mset_eq_imp_distinct_iff)
  then have hnt: "hd S \<notin> set t" using St by (metis distinct.simps(2))
  have setS: "set ids = insert (hd S) (set t)"
    using msetS St by (metis list.simps(15) set_mset_mset)
  have stepL: "removeIdsStep docs [] m = t" if "m \<in> set docs" "longname m = L" for m
  proof -
    have "\<forall>d\<in>set docs. longname d = longname m \<longrightarrow> kind d = ''member''"
      using members that by simp
    then have "removeIdsStep docs [] m =
      tl (arraySort compareFn (map docId (filter (\<lambda>doc. longname doc = longname m) docs)))"
      by (rule step_no_nonmember_tl)
    also have "\<dots> = tl S" using that(2) by (simp add: S_def ids_def atL_def)
    also have "\<dots> = t" by (subst St) simp
    finally show ?thesis .
  qed
  have keep: "P d \<longleftrightarrow> docId d = hd S" if d: "d \<in> set docs" "longname d = L" for d
  proof
    assume "P d"
    moreover have "kind d = ''member''" using members d by simp
    ultimately have "docId d \<notin> set (removeIdsStep docs [] d)" using d by (simp add: P_def)
    then have "docId d \<notin> set t" using stepL [OF d] by simp
    moreover have "docId d \<in> set ids" using d by (simp add: ids_def atL_def)
    ultimately show "docId d = hd S" using setS by simp
  next
    assume dh: "docId d = hd S"
    have "docId d \<notin> set (removeIdsStep docs [] m)" if m: "m \<in> set docs" "kind m = ''member''" for m
    proof (cases "longname m = L")
      case True
      then show ?thesis using stepL [OF m(1)] dh hnt by simp
    next
      case False
      show ?thesis
      proof
        assume "docId d \<in> set (removeIdsStep docs [] m)"
        then obtain x where x: "x \<in> set docs" "longname x = longname m" "docId x = docId d"
          using removed_ids_are_member_ids [OF m] by blast
        with inj d(1) have "x = d" by (auto dest: inj_onD)
        with x(2) d(2) False show False by simp
      qed
    qed
    then show "P d" by (simp add: P_def)
  qed
  have "filter (\<lambda>x. longname x = L) (resolveDuplication docs) =
        filter (\<lambda>x. docId x = hd S) atL"
    using keep by (auto simp: R atL_def filter_filter intro: filter_cong)
  moreover have "length (filter (\<lambda>x. docId x = hd S) atL) = 1"
  proof (rule distinct_key_filter_length)
    show "distinct (map docId atL)" by fact
    have "hd S \<in> set ids" using setS by simp
    then show "hd S \<in> docId ` set atL" by (simp add: ids_def)
  qed
  ultimately obtain d where "d \<in> set atL" "docId d = hd S"
      "filter (\<lambda>x. longname x = L) (resolveDuplication docs) = [d]"
    using filter_singleton_by_key [of "\<lambda>x. docId x = hd S" atL] by auto
  then show ?thesis by (auto simp: hdS ids_def atL_def comp_def)
qed

lemma filter_mem_filter: "filter (\<lambda>x. x \<in> set (filter P xs)) xs = filter P xs"
  by (rule filter_cong) auto

lemma resolveDuplication_subseq:
  "resolveDuplication docs = filter (\<lambda>x. x \<in> set (resolveDuplication docs)) docs"
  by (subst (2) resolveDuplication_filter, subst (1) resolveDuplication_filter)
     (simp only: filter_mem_filter)

lemma resolve_docsC1:
  "resolveDuplication docsC1 = [mkDoc ''class'' ''A'' ''1'', mkDoc ''member'' ''A#f'' ''10'', mkDoc ''method'' ''A#g'' ''4'']"
  by code_simp

lemma resolve_docsC10:
  "resolveDuplication docsC10 = [mkDoc ''method'' ''A#x'' ''2'', mkDoc ''member'' ''A#y'' ''3'', mkDoc ''class'' ''A'' ''5'']"
  by code_simp

text \<open>
  Claim C1. Let a sequence of docs hold, at one longname \<open>Y\<close>, exactly three docs, all of
  kind member, with the identifiers "2", "10" and "3", and no other doc at \<open>Y\<close>; let "10"
  be the identifier of no doc elsewhere (it names one doc, as it does whenever identifiers
  are unique). Then exactly one doc at \<open>Y\<close> is left after duplicate resolution, and it is
  the member doc with the identifier "10": the identifiers are sorted as strings,
  ascending, and only the first one is kept.
\<close>

theorem C1_lexical_survivor:
  assumes "mset (map docId (filter (\<lambda>d. longname d = Y) docs)) =
             {#Some ''2'', Some ''10'', Some ''3''#}"
    and "\<forall>d\<in>set docs. longname d = Y \<longrightarrow> kind d = ''member''"
    and "\<forall>d\<in>set docs. docId d = Some ''10'' \<longrightarrow> longname d = Y"
  shows "\<exists>d. d \<in> set docs \<and> docId d = Some ''10'' \<and> longname d = Y \<and> kind d = ''member'' \<and>
             filter (\<lambda>x. longname x = Y) (resolveDuplication docs) = [d]"
  using assms by (rule C1_core)

theorem C1_lexical_survivor_witness:
  "mset (map docId (filter (\<lambda>d. longname d = ''A#f'') docsC1)) =
             {#Some ''2'', Some ''10'', Some ''3''#} \<and>
   filter (\<lambda>x. longname x = ''A#f'') (resolveDuplication docsC1) = [mkDoc ''member'' ''A#f'' ''10'']"
proof -
  have h1: "mset (map docId (filter (\<lambda>d. longname d = ''A#f'') docsC1)) =
             {#Some ''2'', Some ''10'', Some ''3''#}"
    by (simp add: docsC1_def mkDoc_def)
  have h2: "\<forall>d\<in>set docsC1. longname d = ''A#f'' \<longrightarrow> kind d = ''member''"
    by (simp add: docsC1_def mkDoc_def)
  have h3: "\<forall>d\<in>set docsC1. docId d = Some ''10'' \<longrightarrow> longname d = ''A#f''"
    by (simp add: docsC1_def mkDoc_def)
  obtain d where d: "d \<in> set docsC1" "docId d = Some ''10''"
      "filter (\<lambda>x. longname x = ''A#f'') (resolveDuplication docsC1) = [d]"
    using C1_lexical_survivor [OF h1 h2 h3] by blast
  from d(1) d(2) have "d = mkDoc ''member'' ''A#f'' ''10''"
    by (auto simp: docsC1_def mkDoc_def)
  with d(3) h1 show ?thesis by simp
qed

text \<open>
  Claim C4. In a sequence of docs with unique identifiers, a member doc \<open>M\<close> that shares
  its longname with a doc \<open>d\<close> of another kind is not in the output of duplicate
  resolution, and \<open>d\<close> is; when the sequence holds just these two docs (in either order,
  \<open>d\<close> a method doc, say), the output is exactly \<open>[d]\<close>.
\<close>

theorem C4_member_yields_to_nonmember:
  assumes "distinct (map docId docs)"
    and "M \<in> set docs" "kind M = ''member''"
    and "d \<in> set docs" "kind d \<noteq> ''member''" "longname d = longname M"
  shows "M \<notin> set (resolveDuplication docs) \<and> d \<in> set (resolveDuplication docs) \<and>
         (docs = [M, d] \<or> docs = [d, M] \<longrightarrow> resolveDuplication docs = [d])"
proof -
  have a: "M \<notin> set (resolveDuplication docs)"
    using assms(2-6) by (rule member_with_nonmember_removed)
  have b: "d \<in> set (resolveDuplication docs)"
    using assms(1) assms(4) assms(5) by (rule nonmember_kept)
  have c: "resolveDuplication docs = [d]" if "docs = [M, d] \<or> docs = [d, M]"
  proof -
    have "resolveDuplication docs = filter (\<lambda>x. x \<in> set (resolveDuplication docs)) docs"
      by (rule resolveDuplication_subseq)
    with a b that assms(3) assms(5) show ?thesis by auto
  qed
  from a b c show ?thesis by blast
qed

theorem C4_member_yields_to_nonmember_witness:
  "resolveDuplication [mkDoc ''member'' ''A#x'' ''1'', mkDoc ''method'' ''A#x'' ''2''] =
     [mkDoc ''method'' ''A#x'' ''2''] \<and>
   resolveDuplication [mkDoc ''method'' ''A#x'' ''2'', mkDoc ''member'' ''A#x'' ''1''] =
     [mkDoc ''method'' ''A#x'' ''2'']"
  using C4_member_yields_to_nonmember
          [of "[mkDoc ''member'' ''A#x'' ''1'', mkDoc ''method'' ''A#x'' ''2'']"
              "mkDoc ''member'' ''A#x'' ''1''" "mkDoc ''method'' ''A#x'' ''2''"]
        C4_member_yields_to_nonmember
          [of "[mkDoc ''method'' ''A#x'' ''2'', mkDoc ''member'' ''A#x'' ''1'']"
              "mkDoc ''member'' ''A#x'' ''1''" "mkDoc ''method'' ''A#x'' ''2''"]
  by (simp add: mkDoc_def)

text \<open>
  Claim C10. For a sequence of docs with unique identifiers, resolving the output of
  duplicate resolution again changes nothing; the docs of a kind other than member are
  the same before and after, in the same order; every doc that is dropped is a member
  doc; and the output is the input with docs deleted, the order kept.
\<close>

theorem C10_resolveDuplication_idempotent:
  assumes "distinct (map docId docs)"
  shows "resolveDuplication (resolveDuplication docs) = resolveDuplication docs \<and>
         filter (\<lambda>d. kind d \<noteq> ''member'') (resolveDuplication docs) =
           filter (\<lambda>d. kind d \<noteq> ''member'') docs \<and>
         (\<forall>d\<in>set docs. d \<notin> set (resolveDuplication docs) \<longrightarrow> kind d = ''member'') \<and>
         resolveDuplication docs = filter (\<lambda>d. d \<in> set (resolveDuplication docs)) docs"
proof -
  have "resolveDuplication docs = filter (\<lambda>x. x \<in> set (resolveDuplication docs)) docs"
    by (rule resolveDuplication_subseq)
  moreover have "\<forall>d\<in>set docs. d \<notin> set (resolveDuplication docs) \<longrightarrow> kind d = ''member''"
    using nonmember_kept [OF assms] by blast
  ultimately show ?thesis
    using resolveDuplication_idem [of docs] nonmembers_unchanged [OF assms] by simp
qed

theorem C10_resolveDuplication_idempotent_witness:
  "distinct (map docId docsC10) \<and>
   resolveDuplication docsC10 =
     [mkDoc ''method'' ''A#x'' ''2'', mkDoc ''member'' ''A#y'' ''3'', mkDoc ''class'' ''A'' ''5''] \<and>
   resolveDuplication (resolveDuplication docsC10) = resolveDuplication docsC10 \<and>
   filter (\<lambda>d. kind d \<noteq> ''member'') (resolveDuplication docsC10) =
     [mkDoc ''method'' ''A#x'' ''2'', mkDoc ''class'' ''A'' ''5'']"
proof -
  have h: "distinct (map docId docsC10)" by code_simp
  have nf: "filter (\<lambda>d. kind d \<noteq> ''member'') docsC10 =
          [mkDoc ''method'' ''A#x'' ''2'', mkDoc ''class'' ''A'' ''5'']"
    by code_simp
  have r: "resolveDuplication docsC10 =
     [mkDoc ''method'' ''A#x'' ''2'', mkDoc ''member'' ''A#y'' ''3'', mkDoc ''class'' ''A'' ''5'']"
    by code_simp
  from C10_resolveDuplication_idempotent [OF h]
  have i: "resolveDuplication (resolveDuplication docsC10) = resolveDuplication docsC10"
    and f: "filter (\<lambda>d. kind d \<noteq> ''member'') (resolveDuplication docsC10) =
           filter (\<lambda>d. kind d \<noteq> ''member'') docsC10"
    by blast+
  from f nf have "filter (\<lambda>d. kind d \<noteq> ''member'') (resolveDuplication docsC10) =
     [mkDoc ''method'' ''A#x'' ''2'', mkDoc ''class'' ''A'' ''5'']"
    by (rule trans)
  with h r i show ?thesis by blast
qed

section \<open>Sequencing and the trace\<close>

lemma andThen_Return: "m s = (Return x, s1) \<Longrightarrow> andThen m f s = f x s1"
  by (simp add: andThen_def)

lemma andThen_Throw: "m s = (Throw e, s1) \<Longrightarrow> andThen m f s = (Throw e, s1)"
  by (simp add: andThen_def)

lemma andThen_Exit: "m s = (Exit n, s1) \<Longrightarrow> andThen m f s = (Exit n, s1)"
  by (simp add: andThen_def)

lemma emit_simps:
  "trace (emit e s) = trace s @ [e]" "files (emit e s) = files s"
  "results (emit e s) = results s" "asts (emit e s) = asts s"
  by (simp_all add: emit_def)

lemma outcome_cases:
  obtains x s1 where "r = (Return x, s1)" | e s1 where "r = (Throw e, s1)"
        | n s1 where "r = (Exit n, s1)"
proof (cases r)
  case (Pair a b)
  then show ?thesis using that by (cases a) auto
qed

text \<open>A step is quiet when it only appends to the trace and leaves the files alone.\<close>

lemma andThen_prefix:
  assumes "\<And>s. prefix (trace s) (trace (snd (m s)))"
    and "\<And>x s. prefix (trace s) (trace (snd (f x s)))"
  shows "prefix (trace s) (trace (snd (andThen m f s)))"
proof (cases "m s" rule: outcome_cases)
  case (1 x s1)
  then have "andThen m f s = f x s1" by (rule andThen_Return)
  moreover have "prefix (trace s) (trace s1)" using assms(1) [of s] 1 by simp
  moreover have "prefix (trace s1) (trace (snd (f x s1)))" by (rule assms(2))
  ultimately show ?thesis by (metis prefix_order.trans)
next
  case (2 e s1)
  then have "andThen m f s = (Throw e, s1)" by (rule andThen_Throw)
  then show ?thesis using assms(1) [of s] 2 by simp
next
  case (3 n s1)
  then have "andThen m f s = (Exit n, s1)" by (rule andThen_Exit)
  then show ?thesis using assms(1) [of s] 3 by simp
qed

lemma andThen_files:
  assumes "\<And>s. files (snd (m s)) = files s"
    and "\<And>x s. files (snd (f x s)) = files s"
  shows "files (snd (andThen m f s)) = files s"
proof (cases "m s" rule: outcome_cases)
  case (1 x s1)
  then have "andThen m f s = f x s1" by (rule andThen_Return)
  moreover have "files s1 = files s" using assms(1) [of s] 1 by simp
  ultimately show ?thesis using assms(2) [of x s1] by simp
next
  case (2 e s1)
  then have "andThen m f s = (Throw e, s1)" by (rule andThen_Throw)
  then show ?thesis using assms(1) [of s] 2 by simp
next
  case (3 n s1)
  then have "andThen m f s = (Exit n, s1)" by (rule andThen_Exit)
  then show ?thesis using assms(1) [of s] 3 by simp
qed

lemma andThen_no_Exit:
  assumes "\<And>s n. fst (m s) \<noteq> Exit n"
    and "\<And>x s n. fst (f x s) \<noteq> Exit n"
  shows "fst (andThen m f s) \<noteq> Exit n"
proof (cases "m s" rule: outcome_cases)
  case (1 x s1)
  then have "andThen m f s = f x s1" by (rule andThen_Return)
  then show ?thesis using assms(2) [of x s1 n] by simp
next
  case (2 e s1)
  then have "andThen m f s = (Throw e, s1)" by (rule andThen_Throw)
  then show ?thesis by simp
next
  case (3 n' s1)
  then show ?thesis using assms(1) [of s n'] by simp
qed

lemma readFileSync_quiet:
  "prefix (trace s) (trace (snd (readFileSync p s)))" "files (snd (readFileSync p s)) = files s"
  "fst (readFileSync p s) \<noteq> Exit n"
  by (simp_all add: readFileSync_def emit_simps split: option.splits)

lemma readFileSync_Some:
  "files s p = Some text \<Longrightarrow> readFileSync p s = (Return text, emit (EvReadFile p) s)"
  by (simp add: readFileSync_def)

lemma readFileSync_None:
  "files s p = None \<Longrightarrow> readFileSync p s = (Throw (FsError p), emit (EvReadFile p) s)"
  by (simp add: readFileSync_def)

section \<open>Properties of per-file extraction\<close>

lemma pushAll_cases:
  "(\<exists>factory'. pushAll env filePath nodes factory s = (Return factory', s)) \<or>
   (\<exists>e node. pushAll env filePath nodes factory s = (Throw e, emit (EvShowNode filePath node) s))"
proof (induction nodes arbitrary: factory)
  case Nil
  show ?case by simp
next
  case (Cons np nodes)
  obtain node parent where np: "np = (node, parent)" by (cases np)
  show ?case
  proof (cases "factoryPush env factory node parent")
    case (Inl e)
    then show ?thesis by (auto simp: np)
  next
    case (Inr factory')
    then show ?thesis using Cons.IH [of factory'] by (simp add: np)
  qed
qed

lemma pushAll_never_raises:
  assumes "\<And>factory node parent. \<exists>factory'. factoryPush env factory node parent = Inr factory'"
  shows "\<exists>factory'. pushAll env filePath nodes factory s = (Return factory', s)"
proof (induction nodes arbitrary: factory)
  case Nil
  show ?case by simp
next
  case (Cons np nodes)
  obtain node parent where np: "np = (node, parent)" by (cases np)
  obtain factory' where "factoryPush env factory node parent = Inr factory'"
    using assms by blast
  then show ?case using Cons.IH [of factory'] by (simp add: np)
qed

text \<open>The four ways \<^verbatim>\<open>_traverse\<close> ends.\<close>

lemma traverse_parse_fails:
  assumes "esParse env filePath = Inl e" and "loggerShowFile env filePath e = None"
  shows "traverse env inDirPath filePath packageName mainFilePath s =
           (Return None,
            emit (EvShowFile filePath e)
              (emit (EvParse filePath) (emit (EvLoggerInfo (''parsing: '' @ filePath)) s)))"
  using assms by (simp add: traverse_def Let_def)

lemma traverse_logger_raises:
  assumes "esParse env filePath = Inl e" and "loggerShowFile env filePath e = Some e'"
  shows "traverse env inDirPath filePath packageName mainFilePath s =
           (Throw e',
            emit (EvShowFile filePath e)
              (emit (EvParse filePath) (emit (EvLoggerInfo (''parsing: '' @ filePath)) s)))"
  using assms by (simp add: traverse_def Let_def)

lemma traverse_push_raises:
  assumes "esParse env filePath = Inr ast"
    and "pushAll env filePath (astTraverse env ast)
           (newDocFactory env ast inDirPath filePath packageName mainFilePath)
           (emit (EvParse filePath) (emit (EvLoggerInfo (''parsing: '' @ filePath)) s)) = (Throw e, s2)"
  shows "traverse env inDirPath filePath packageName mainFilePath s = (Throw e, s2)"
  using assms by (simp add: traverse_def Let_def andThen_Throw)

lemma traverse_ok:
  assumes "esParse env filePath = Inr ast"
    and "pushAll env filePath (astTraverse env ast)
           (newDocFactory env ast inDirPath filePath packageName mainFilePath)
           (emit (EvParse filePath) (emit (EvLoggerInfo (''parsing: '' @ filePath)) s)) = (Return factory, s2)"
  shows "traverse env inDirPath filePath packageName mainFilePath s =
           (Return (Some (factoryResults env factory, ast)), s2)"
  using assms by (simp add: traverse_def Let_def andThen_Return)

lemma traverse_cases:
  obtains
    (parse_fails) e where "esParse env filePath = Inl e" "loggerShowFile env filePath e = None"
      "traverse env inDirPath filePath packageName mainFilePath s =
         (Return None,
          emit (EvShowFile filePath e)
            (emit (EvParse filePath) (emit (EvLoggerInfo (''parsing: '' @ filePath)) s)))"
  | (logger_raises) e e' where "esParse env filePath = Inl e"
      "loggerShowFile env filePath e = Some e'"
      "traverse env inDirPath filePath packageName mainFilePath s =
         (Throw e',
          emit (EvShowFile filePath e)
            (emit (EvParse filePath) (emit (EvLoggerInfo (''parsing: '' @ filePath)) s)))"
  | (extracted) ast factory where "esParse env filePath = Inr ast"
      "traverse env inDirPath filePath packageName mainFilePath s =
         (Return (Some (factoryResults env factory, ast)),
          emit (EvParse filePath) (emit (EvLoggerInfo (''parsing: '' @ filePath)) s))"
  | (push_raises) ast e node where "esParse env filePath = Inr ast"
      "traverse env inDirPath filePath packageName mainFilePath s =
         (Throw e,
          emit (EvShowNode filePath node)
            (emit (EvParse filePath) (emit (EvLoggerInfo (''parsing: '' @ filePath)) s)))"
proof (cases "esParse env filePath")
  case (Inl e)
  show ?thesis
  proof (cases "loggerShowFile env filePath e")
    case None
    then show ?thesis using traverse_parse_fails [OF Inl None] parse_fails Inl by blast
  next
    case (Some e')
    then show ?thesis using traverse_logger_raises [OF Inl Some] logger_raises Inl by blast
  qed
next
  case (Inr ast)
  let ?s1 = "emit (EvParse filePath) (emit (EvLoggerInfo (''parsing: '' @ filePath)) s)"
  let ?fac = "newDocFactory env ast inDirPath filePath packageName mainFilePath"
  from pushAll_cases [of env filePath "astTraverse env ast" ?fac ?s1]
  show ?thesis
  proof (elim disjE exE)
    fix factory'
    assume "pushAll env filePath (astTraverse env ast) ?fac ?s1 = (Return factory', ?s1)"
    then show ?thesis using traverse_ok [OF Inr] extracted Inr by blast
  next
    fix e node
    assume "pushAll env filePath (astTraverse env ast) ?fac ?s1 =
              (Throw e, emit (EvShowNode filePath node) ?s1)"
    then show ?thesis using traverse_push_raises [OF Inr] push_raises Inr by blast
  qed
qed

section \<open>Properties of the callback\<close>

lemma includeLoop_iff:
  "includeLoop env regs relativeFilePath \<longleftrightarrow> (\<exists>reg\<in>set regs. regexMatch env reg relativeFilePath)"
  by (induction regs) auto

lemma excludeLoop_iff:
  "excludeLoop env regs relativeFilePath \<longleftrightarrow> (\<exists>reg\<in>set regs. regexMatch env reg relativeFilePath)"
  by (induction regs) auto

lemma callback_skip:
  assumes "\<not> includeLoop env (cIncludes c) (pathRelative env (cSourceDirPath c) filePath) \<or>
           excludeLoop env (cExcludes c) (pathRelative env (cSourceDirPath c) filePath)"
  shows "callback env c filePath s = (Return (), s)"
  using assms by (auto simp: callback_def Let_def)

lemma callback_selected:
  assumes "includeLoop env (cIncludes c) (pathRelative env (cSourceDirPath c) filePath)"
    and "\<not> excludeLoop env (cExcludes c) (pathRelative env (cSourceDirPath c) filePath)"
  shows "callback env c filePath s =
           andThen
             (traverse env (cSource c) filePath (cPackageName c) (cMainFilePath c))
             (\<lambda>temp s2.
                case temp of
                  None \<Rightarrow> (Return (), s2)
                | Some (tempResults, ast) \<Rightarrow>
                    (Return (),
                     s2\<lparr>results := results s2 @ tempResults,
                        asts := asts s2 @ [(''source'' @ pathSep env @
                                  pathRelative env (cSourceDirPath c) filePath, ast)]\<rparr>))
             (emit (EvConsoleLog (''parse: '' @ filePath)) s)"
  using assms by (simp add: callback_def Let_def)

text \<open>The five ways the callback ends.\<close>

lemma callback_cases:
  obtains
    (skipped) "\<not> includeLoop env (cIncludes c) (pathRelative env (cSourceDirPath c) filePath) \<or>
               excludeLoop env (cExcludes c) (pathRelative env (cSourceDirPath c) filePath)"
      "callback env c filePath s = (Return (), s)"
  | (parse_fails) e where
      "includeLoop env (cIncludes c) (pathRelative env (cSourceDirPath c) filePath)"
      "\<not> excludeLoop env (cExcludes c) (pathRelative env (cSourceDirPath c) filePath)"
      "esParse env filePath = Inl e" "loggerShowFile env filePath e = None"
      "callback env c filePath s =
         (Return (),
          emit (EvShowFile filePath e)
            (emit (EvParse filePath) (emit (EvLoggerInfo (''parsing: '' @ filePath))
               (emit (EvConsoleLog (''parse: '' @ filePath)) s))))"
  | (logger_raises) e e' where
      "includeLoop env (cIncludes c) (pathRelative env (cSourceDirPath c) filePath)"
      "\<not> excludeLoop env (cExcludes c) (pathRelative env (cSourceDirPath c) filePath)"
      "esParse env filePath = Inl e" "loggerShowFile env filePath e = Some e'"
      "callback env c filePath s =
         (Throw e',
          emit (EvShowFile filePath e)
            (emit (EvParse filePath) (emit (EvLoggerInfo (''parsing: '' @ filePath))
               (emit (EvConsoleLog (''parse: '' @ filePath)) s))))"
  | (extracted) ast docs where
      "includeLoop env (cIncludes c) (pathRelative env (cSourceDirPath c) filePath)"
      "\<not> excludeLoop env (cExcludes c) (pathRelative env (cSourceDirPath c) filePath)"
      "esParse env filePath = Inr ast"
      "callback env c filePath s =
         (Return (),
          (emit (EvParse filePath) (emit (EvLoggerInfo (''parsing: '' @ filePath))
               (emit (EvConsoleLog (''parse: '' @ filePath)) s)))
           \<lparr>results := results s @ docs,
            asts := asts s @ [(''source'' @ pathSep env @
                      pathRelative env (cSourceDirPath c) filePath, ast)]\<rparr>)"
  | (push_raises) ast e node where
      "includeLoop env (cIncludes c) (pathRelative env (cSourceDirPath c) filePath)"
      "\<not> excludeLoop env (cExcludes c) (pathRelative env (cSourceDirPath c) filePath)"
      "esParse env filePath = Inr ast"
      "callback env c filePath s =
         (Throw e,
          emit (EvShowNode filePath node)
            (emit (EvParse filePath) (emit (EvLoggerInfo (''parsing: '' @ filePath))
               (emit (EvConsoleLog (''parse: '' @ filePath)) s))))"
proof (cases "includeLoop env (cIncludes c) (pathRelative env (cSourceDirPath c) filePath) \<and>
              \<not> excludeLoop env (cExcludes c) (pathRelative env (cSourceDirPath c) filePath)")
  case False
  then have "\<not> includeLoop env (cIncludes c) (pathRelative env (cSourceDirPath c) filePath) \<or>
             excludeLoop env (cExcludes c) (pathRelative env (cSourceDirPath c) filePath)"
    by blast
  then show ?thesis using callback_skip skipped by blast
next
  case True
  then have inc: "includeLoop env (cIncludes c) (pathRelative env (cSourceDirPath c) filePath)"
    and exc: "\<not> excludeLoop env (cExcludes c) (pathRelative env (cSourceDirPath c) filePath)"
    by blast+
  note cb = callback_selected [OF inc exc, of s]
  let ?s0 = "emit (EvConsoleLog (''parse: '' @ filePath)) s"
  show ?thesis
  proof (cases rule: traverse_cases [of env filePath "cSource c" "cPackageName c" "cMainFilePath c" ?s0])
    case (parse_fails e)
    have "callback env c filePath s =
         (Return (),
          emit (EvShowFile filePath e)
            (emit (EvParse filePath) (emit (EvLoggerInfo (''parsing: '' @ filePath)) ?s0)))"
      by (simp only: cb andThen_def parse_fails(3) prod.case outcome.case option.case)
    then show ?thesis using inc exc parse_fails(1,2) that(2) by blast
  next
    case (logger_raises e e')
    have "callback env c filePath s =
         (Throw e',
          emit (EvShowFile filePath e)
            (emit (EvParse filePath) (emit (EvLoggerInfo (''parsing: '' @ filePath)) ?s0)))"
      by (simp only: cb andThen_def logger_raises(3) prod.case outcome.case option.case)
    then show ?thesis using inc exc logger_raises(1,2) that(3) by blast
  next
    case (extracted ast factory)
    have "callback env c filePath s =
         (Return (),
          (emit (EvParse filePath) (emit (EvLoggerInfo (''parsing: '' @ filePath)) ?s0))
           \<lparr>results := results s @ factoryResults env factory,
            asts := asts s @ [(''source'' @ pathSep env @
                      pathRelative env (cSourceDirPath c) filePath, ast)]\<rparr>)"
      by (simp only: cb andThen_def extracted(2) prod.case outcome.case option.case emit_simps)
    then show ?thesis using inc exc extracted(1) that(4) by blast
  next
    case (push_raises ast e node)
    have "callback env c filePath s =
         (Throw e,
          emit (EvShowNode filePath node)
            (emit (EvParse filePath) (emit (EvLoggerInfo (''parsing: '' @ filePath)) ?s0)))"
      by (simp only: cb andThen_def push_raises(2) prod.case outcome.case option.case)
    then show ?thesis using inc exc push_raises(1) that(5) by blast
  qed
qed

lemma callback_quiet:
  "prefix (trace s) (trace (snd (callback env c filePath s)))"
  "files (snd (callback env c filePath s)) = files s"
  "fst (callback env c filePath s) \<noteq> Exit n"
  by (cases rule: callback_cases [of env c filePath s]; simp add: emit_simps)+

lemma callback_never_throws:
  assumes "\<And>factory node parent. \<exists>factory'. factoryPush env factory node parent = Inr factory'"
    and logs: "\<And>e. esParse env filePath = Inl e \<Longrightarrow> loggerShowFile env filePath e = None"
  shows "\<exists>s'. callback env c filePath s = (Return (), s')"
proof (cases rule: callback_cases [of env c filePath s])
  case (logger_raises e e')
  then show ?thesis using logs by simp
next
  case (push_raises ast e node)
  let ?s1 = "emit (EvParse filePath) (emit (EvLoggerInfo (''parsing: '' @ filePath))
               (emit (EvConsoleLog (''parse: '' @ filePath)) s))"
  obtain factory' where
    "pushAll env filePath (astTraverse env ast)
       (newDocFactory env ast (cSource c) filePath (cPackageName c) (cMainFilePath c)) ?s1 =
     (Return factory', ?s1)"
    using pushAll_never_raises [OF assms(1)] by blast
  then have "traverse env (cSource c) filePath (cPackageName c) (cMainFilePath c)
               (emit (EvConsoleLog (''parse: '' @ filePath)) s) =
             (Return (Some (factoryResults env factory', ast)), ?s1)"
    by (rule traverse_ok [OF push_raises(3)])
  then have "fst (callback env c filePath s) = Return ()"
    by (simp only: callback_selected [OF push_raises(1) push_raises(2)] andThen_def
          prod.case outcome.case option.case fst_conv)
  with push_raises(4) show ?thesis by simp
qed simp_all

section \<open>Properties of the walk\<close>

lemma walkEntries_File:
  "walkEntries env cb dirPath ((entry, File) # rest) s =
     (case cb (pathResolve env dirPath entry) (emit (EvStat (pathResolve env dirPath entry)) s) of
        (Return u, s2) \<Rightarrow> walkEntries env cb dirPath rest s2
      | (Throw e, s2) \<Rightarrow> (Throw e, s2)
      | (Exit n, s2) \<Rightarrow> (Exit n, s2))"
  by (simp add: Let_def)

lemma walkEntries_Dir:
  "walkEntries env cb dirPath ((entry, Dir entries) # rest) s =
     (case walkEntries env cb (pathResolve env dirPath entry) entries
             (emit (EvReadDir (pathResolve env dirPath entry))
                (emit (EvStat (pathResolve env dirPath entry)) s)) of
        (Return u, s2) \<Rightarrow> walkEntries env cb dirPath rest s2
      | (Throw e, s2) \<Rightarrow> (Throw e, s2)
      | (Exit n, s2) \<Rightarrow> (Exit n, s2))"
  by (simp add: Let_def)

lemma walkEntries_Other:
  "walkEntries env cb dirPath ((entry, Other) # rest) s =
     walkEntries env cb dirPath rest (emit (EvStat (pathResolve env dirPath entry)) s)"
  by (simp add: Let_def)

lemma walkEntries_NoStat:
  "walkEntries env cb dirPath ((entry, NoStat) # rest) s =
     (Throw (FsError (pathResolve env dirPath entry)),
      emit (EvStat (pathResolve env dirPath entry)) s)"
  by (simp add: Let_def)

lemma walkEntries_NoList:
  "walkEntries env cb dirPath ((entry, NoList) # rest) s =
     (Throw (FsError (pathResolve env dirPath entry)),
      emit (EvReadDir (pathResolve env dirPath entry))
        (emit (EvStat (pathResolve env dirPath entry)) s))"
  by (simp add: Let_def)

declare walkEntries.simps(2) [simp del]

lemma walkEntries_quiet:
  assumes cb1: "\<And>p s. prefix (trace s) (trace (snd (cb p s)))"
    and cb2: "\<And>p s. files (snd (cb p s)) = files s"
    and cb3: "\<And>p s n. fst (cb p s) \<noteq> Exit n"
  shows "prefix (trace s) (trace (snd (walkEntries env cb dirPath entries s))) \<and>
         files (snd (walkEntries env cb dirPath entries s)) = files s \<and>
         (\<forall>n. fst (walkEntries env cb dirPath entries s) \<noteq> Exit n)"
  using assms
proof (induction env cb dirPath entries s rule: walkEntries.induct)
  case (1 env cb dirPath s)
  show ?case by simp
next
  case (2 env cb dirPath entry node rest s)
  note cb1 = "2.prems"(1) and cb2 = "2.prems"(2) and cb3 = "2.prems"(3)
  let ?p = "pathResolve env dirPath entry"
  let ?s1 = "emit (EvStat ?p) s"
  have s1: "prefix (trace s) (trace ?s1)" "files ?s1 = files s"
    by (simp_all add: emit_simps)
  show ?case
  proof (cases node)
    case File
    show ?thesis
    proof (cases "cb ?p ?s1" rule: outcome_cases)
      case (1 u s2)
      have a: "prefix (trace ?s1) (trace s2)" "files s2 = files ?s1"
        using cb1 [of ?s1 ?p] cb2 [of ?p ?s1] by (simp_all add: 1)
      have ih: "prefix (trace s2) (trace (snd (walkEntries env cb dirPath rest s2))) \<and>
         files (snd (walkEntries env cb dirPath rest s2)) = files s2 \<and>
         (\<forall>n. fst (walkEntries env cb dirPath rest s2) \<noteq> Exit n)"
        using "2.IH"(1) [OF refl refl File 1 [symmetric] refl cb1 cb2 cb3] .
      have "walkEntries env cb dirPath ((entry, node) # rest) s = walkEntries env cb dirPath rest s2"
        by (simp add: File walkEntries_File 1)
      with ih a s1 show ?thesis by (metis prefix_order.trans)
    next
      case (2 e s2)
      have a: "prefix (trace ?s1) (trace s2)" "files s2 = files ?s1"
        using cb1 [of ?s1 ?p] cb2 [of ?p ?s1] by (simp_all add: 2)
      have w: "walkEntries env cb dirPath ((entry, node) # rest) s = (Throw e, s2)"
        by (simp add: File walkEntries_File 2)
      from a s1 have "prefix (trace s) (trace s2)" "files s2 = files s"
        by (metis prefix_order.trans, simp)
      then show ?thesis by (simp add: w)
    next
      case (3 n s2)
      show ?thesis using cb3 [of ?p ?s1 n] by (simp add: 3)
    qed
  next
    case (Dir es)
    let ?s2 = "emit (EvReadDir ?p) ?s1"
    have s2: "prefix (trace s) (trace ?s2)" "files ?s2 = files s"
      by (simp_all add: emit_simps)
    have ih1: "prefix (trace ?s2) (trace (snd (walkEntries env cb ?p es ?s2))) \<and>
         files (snd (walkEntries env cb ?p es ?s2)) = files ?s2 \<and>
         (\<forall>n. fst (walkEntries env cb ?p es ?s2) \<noteq> Exit n)"
      using "2.IH"(2) [OF refl refl Dir cb1 cb2 cb3] .
    show ?thesis
    proof (cases "walkEntries env cb ?p es ?s2" rule: outcome_cases)
      case (1 u s3)
      have a: "prefix (trace ?s2) (trace s3)" "files s3 = files ?s2"
        using ih1 by (simp_all add: 1)
      have ih: "prefix (trace s3) (trace (snd (walkEntries env cb dirPath rest s3))) \<and>
         files (snd (walkEntries env cb dirPath rest s3)) = files s3 \<and>
         (\<forall>n. fst (walkEntries env cb dirPath rest s3) \<noteq> Exit n)"
        using "2.IH"(3) [OF refl refl Dir 1 [symmetric] refl cb1 cb2 cb3] .
      have "walkEntries env cb dirPath ((entry, node) # rest) s = walkEntries env cb dirPath rest s3"
        by (simp add: Dir walkEntries_Dir 1)
      with ih a s2 show ?thesis by (metis prefix_order.trans)
    next
      case (2 e s3)
      have a: "prefix (trace ?s2) (trace s3)" "files s3 = files ?s2"
        using ih1 by (simp_all add: 2)
      have w: "walkEntries env cb dirPath ((entry, node) # rest) s = (Throw e, s3)"
        by (simp add: Dir walkEntries_Dir 2)
      from a s2 have "prefix (trace s) (trace s3)" "files s3 = files s"
        by (metis prefix_order.trans, simp)
      then show ?thesis by (simp add: w)
    next
      case (3 n s3)
      show ?thesis using ih1 by (simp add: 3)
    qed
  next
    case Other
    have ih: "prefix (trace ?s1) (trace (snd (walkEntries env cb dirPath rest ?s1))) \<and>
         files (snd (walkEntries env cb dirPath rest ?s1)) = files ?s1 \<and>
         (\<forall>n. fst (walkEntries env cb dirPath rest ?s1) \<noteq> Exit n)"
      using "2.IH"(4) [OF refl refl Other cb1 cb2 cb3] .
    have "walkEntries env cb dirPath ((entry, node) # rest) s = walkEntries env cb dirPath rest ?s1"
      by (simp add: Other walkEntries_Other)
    with ih s1 show ?thesis by (metis prefix_order.trans)
  next
    case NoStat
    then show ?thesis by (simp add: walkEntries_NoStat emit_simps)
  next
    case NoList
    then show ?thesis by (simp add: walkEntries_NoList emit_simps)
  qed
qed

lemma walkEntries_no_Exit:
  assumes "\<And>p s n. fst (cb p s) \<noteq> Exit n"
  shows "\<forall>n. fst (walkEntries env cb dirPath entries s) \<noteq> Exit n"
  using assms
proof (induction env cb dirPath entries s rule: walkEntries.induct)
  case (1 env cb dirPath s)
  show ?case by simp
next
  case (2 env cb dirPath entry node rest s)
  note cb3 = "2.prems"
  let ?p = "pathResolve env dirPath entry"
  let ?s1 = "emit (EvStat ?p) s"
  show ?case
  proof (cases node)
    case File
    show ?thesis
    proof (cases "cb ?p ?s1" rule: outcome_cases)
      case (1 u s2)
      have "\<forall>n. fst (walkEntries env cb dirPath rest s2) \<noteq> Exit n"
        using "2.IH"(1) [OF refl refl File 1 [symmetric] refl cb3] .
      then show ?thesis by (simp add: File walkEntries_File 1)
    next
      case (2 e s2)
      then show ?thesis by (simp add: File walkEntries_File)
    next
      case (3 n' s2)
      show ?thesis using cb3 [of ?p ?s1 n'] by (simp add: 3)
    qed
  next
    case (Dir es)
    let ?s2 = "emit (EvReadDir ?p) ?s1"
    have ih1: "\<forall>n. fst (walkEntries env cb ?p es ?s2) \<noteq> Exit n"
      using "2.IH"(2) [OF refl refl Dir cb3] .
    show ?thesis
    proof (cases "walkEntries env cb ?p es ?s2" rule: outcome_cases)
      case (1 u s3)
      have "\<forall>n. fst (walkEntries env cb dirPath rest s3) \<noteq> Exit n"
        using "2.IH"(3) [OF refl refl Dir 1 [symmetric] refl cb3] .
      then show ?thesis by (simp add: Dir walkEntries_Dir 1)
    next
      case (2 e s3)
      then show ?thesis by (simp add: Dir walkEntries_Dir)
    next
      case (3 n' s3)
      show ?thesis using ih1 by (simp add: 3)
    qed
  next
    case Other
    have "\<forall>n. fst (walkEntries env cb dirPath rest ?s1) \<noteq> Exit n"
      using "2.IH"(4) [OF refl refl Other cb3] .
    then show ?thesis by (simp add: Other walkEntries_Other)
  next
    case NoStat
    then show ?thesis by (simp add: walkEntries_NoStat)
  next
    case NoList
    then show ?thesis by (simp add: walkEntries_NoList)
  qed
qed

text \<open>A walk over a tree that can be listed, with a callback that always returns, returns.\<close>

lemma walkEntries_Return:
  assumes "walkable entries" and "\<And>p s. \<exists>s'. cb p s = (Return (), s')"
  shows "\<exists>s'. walkEntries env cb dirPath entries s = (Return (), s')"
  using assms
proof (induction env cb dirPath entries s rule: walkEntries.induct)
  case (1 env cb dirPath s)
  show ?case by simp
next
  case (2 env cb dirPath entry node rest s)
  note w = "2.prems"(1) and cbR = "2.prems"(2)
  let ?p = "pathResolve env dirPath entry"
  let ?s1 = "emit (EvStat ?p) s"
  show ?case
  proof (cases node)
    case File
    obtain s2 where c: "cb ?p ?s1 = (Return (), s2)" using cbR by blast
    have "walkable rest" using w File by simp
    then have "\<exists>s'. walkEntries env cb dirPath rest s2 = (Return (), s')"
      using "2.IH"(1) [OF refl refl File c [symmetric] refl] cbR by blast
    then show ?thesis by (simp add: File walkEntries_File c)
  next
    case (Dir es)
    let ?s2 = "emit (EvReadDir ?p) ?s1"
    have wes: "walkable es" and wrest: "walkable rest" using w Dir by simp_all
    obtain s3 where c: "walkEntries env cb ?p es ?s2 = (Return (), s3)"
      using "2.IH"(2) [OF refl refl Dir wes] cbR by blast
    have "\<exists>s'. walkEntries env cb dirPath rest s3 = (Return (), s')"
      using "2.IH"(3) [OF refl refl Dir c [symmetric] refl wrest] cbR by blast
    then show ?thesis by (simp add: Dir walkEntries_Dir c)
  next
    case Other
    have "walkable rest" using w Other by simp
    then have "\<exists>s'. walkEntries env cb dirPath rest ?s1 = (Return (), s')"
      using "2.IH"(4) [OF refl refl Other] cbR by blast
    then show ?thesis by (simp add: Other walkEntries_Other)
  next
    case NoStat
    then show ?thesis using w by simp
  next
    case NoList
    then show ?thesis using w by simp
  qed
qed

text \<open>A walk over a tree with a file on which the callback throws does not return.\<close>

lemma walkEntries_fatal:
  assumes "f \<in> set (walkFiles env dirPath entries)"
    and "\<And>s. \<exists>e s'. cb f s = (Throw e, s')"
    and "\<And>p s n. fst (cb p s) \<noteq> Exit n"
  shows "\<exists>e s'. walkEntries env cb dirPath entries s = (Throw e, s')"
  using assms
proof (induction env cb dirPath entries s rule: walkEntries.induct)
  case (1 env cb dirPath s)
  then show ?case by simp
next
  case (2 env cb dirPath entry node rest s)
  note mem = "2.prems"(1) and cbT = "2.prems"(2) and cb3 = "2.prems"(3)
  let ?p = "pathResolve env dirPath entry"
  let ?s1 = "emit (EvStat ?p) s"
  show ?case
  proof (cases node)
    case File
    show ?thesis
    proof (cases "cb ?p ?s1" rule: outcome_cases)
      case (1 u s2)
      have "f \<noteq> ?p" using cbT [of ?s1] 1 by auto
      then have "f \<in> set (walkFiles env dirPath rest)" using mem File by simp
      then have "\<exists>e s'. walkEntries env cb dirPath rest s2 = (Throw e, s')"
        using "2.IH"(1) [OF refl refl File 1 [symmetric] refl] cbT cb3 by blast
      then show ?thesis by (simp add: File walkEntries_File 1)
    next
      case (2 e s2)
      then show ?thesis by (simp add: File walkEntries_File)
    next
      case (3 n' s2)
      show ?thesis using cb3 [of ?p ?s1 n'] by (simp add: 3)
    qed
  next
    case (Dir es)
    let ?s2 = "emit (EvReadDir ?p) ?s1"
    show ?thesis
    proof (cases "walkEntries env cb ?p es ?s2" rule: outcome_cases)
      case (1 u s3)
      have "f \<notin> set (walkFiles env ?p es)"
      proof
        assume "f \<in> set (walkFiles env ?p es)"
        then have "\<exists>e s'. walkEntries env cb ?p es ?s2 = (Throw e, s')"
          using "2.IH"(2) [OF refl refl Dir] cbT cb3 by blast
        with 1 show False by simp
      qed
      then have "f \<in> set (walkFiles env dirPath rest)" using mem Dir by simp
      then have "\<exists>e s'. walkEntries env cb dirPath rest s3 = (Throw e, s')"
        using "2.IH"(3) [OF refl refl Dir 1 [symmetric] refl] cbT cb3 by blast
      then show ?thesis by (simp add: Dir walkEntries_Dir 1)
    next
      case (2 e s3)
      then show ?thesis by (simp add: Dir walkEntries_Dir)
    next
      case (3 n' s3)
      show ?thesis
        using walkEntries_no_Exit [of cb env ?p es ?s2, OF cb3] by (simp add: 3)
    qed
  next
    case Other
    have "f \<in> set (walkFiles env dirPath rest)" using mem Other by simp
    then have "\<exists>e s'. walkEntries env cb dirPath rest ?s1 = (Throw e, s')"
      using "2.IH"(4) [OF refl refl Other] cbT cb3 by blast
    then show ?thesis by (simp add: Other walkEntries_Other)
  next
    case NoStat
    then show ?thesis by (simp add: walkEntries_NoStat)
  next
    case NoList
    then show ?thesis by (simp add: walkEntries_NoList)
  qed
qed

section \<open>Properties of publishing\<close>

lemma outputFileSync_simps:
  "fst (outputFileSync p text s) = Return ()"
  "trace (snd (outputFileSync p text s)) = trace s @ [EvWriteFile p text]"
  by (simp_all add: outputFileSync_def emit_simps)

lemma publishWrite_quiet:
  "prefix (trace s) (trace (snd (publishWrite env config p text s)))"
  "fst (publishWrite env config p text s) \<noteq> Exit n"
  by (simp_all add: publishWrite_def Let_def outputFileSync_def emit_simps split: option.splits)

lemma publishCopy_quiet:
  "prefix (trace s) (trace (snd (publishCopy env config p q s)))"
  "fst (publishCopy env config p q s) \<noteq> Exit n"
  by (simp_all add: publishCopy_def Let_def emit_simps split: option.splits sum.splits)

lemma publishRead_quiet:
  "prefix (trace s) (trace (snd (publishRead env config p s)))"
  "fst (publishRead env config p s) \<noteq> Exit n"
  by (simp_all add: publishRead_def readFileSync_quiet split: option.splits)

lemma runCall_quiet:
  "prefix (trace s) (trace (snd (runCall env config c s))) \<and>
   (\<forall>n. fst (runCall env config c s) \<noteq> Exit n)"
proof (cases c)
  case (CallWrite p body)
  then show ?thesis by (simp add: runCall_def publishWrite_quiet)
next
  case (CallCopy p q)
  then show ?thesis by (simp add: runCall_def publishCopy_quiet)
next
  case (CallRead p)
  have "prefix (trace s) (trace (snd (publishRead env config p s)))"
    and "\<forall>n. fst (publishRead env config p s) \<noteq> Exit n"
    by (simp_all add: publishRead_quiet)
  then show ?thesis
    by (cases "publishRead env config p s" rule: outcome_cases) (simp_all add: runCall_def CallRead)
next
  case (CallRaise e)
  then show ?thesis by (simp add: runCall_def)
qed

lemma onPublish_quiet:
  "prefix (trace s) (trace (snd (onPublish env config calls s))) \<and>
   (\<forall>n. fst (onPublish env config calls s) \<noteq> Exit n)"
proof (induction calls arbitrary: s)
  case Nil
  show ?case by simp
next
  case (Cons c cs)
  have q: "prefix (trace s) (trace (snd (runCall env config c s))) \<and>
           (\<forall>n. fst (runCall env config c s) \<noteq> Exit n)"
    by (rule runCall_quiet)
  show ?case
  proof (cases "runCall env config c s" rule: outcome_cases)
    case (1 u s1)
    have "onPublish env config (c # cs) s = onPublish env config cs s1"
      by (simp add: 1)
    moreover have "prefix (trace s) (trace s1)" using q by (simp add: 1)
    ultimately show ?thesis using Cons.IH [of s1] by (metis prefix_order.trans)
  next
    case (2 e s1)
    have "onPublish env config (c # cs) s = (Throw e, s1)"
      by (simp add: 2)
    moreover have "prefix (trace s) (trace s1)" using q by (simp add: 2)
    ultimately show ?thesis by simp
  next
    case (3 n s1)
    then show ?thesis using q by simp
  qed
qed

text \<open>\<^verbatim>\<open>_publish\<close> returns, or logs the error and exits with code 1.\<close>

lemma publish_Throw:
  assumes "onPublish env config (pluginOnPublish env) (emit EvOnPublish s) = (Throw e, s1)"
  shows "publish env config s = (Exit 1, emit (EvShowError e) s1)"
  using assms by (simp add: publish_def)

lemma publish_Return:
  assumes "onPublish env config (pluginOnPublish env) (emit EvOnPublish s) = (Return u, s1)"
  shows "publish env config s = (Return (), s1)"
  using assms by (simp add: publish_def)

lemma publish_cases:
  obtains
    (returns) s1 where "publish env config s = (Return (), s1)" "prefix (trace s) (trace s1)"
  | (exits) e s1 where "publish env config s = (Exit 1, emit (EvShowError e) s1)"
      "prefix (trace s) (trace s1)"
      "onPublish env config (pluginOnPublish env) (emit EvOnPublish s) = (Throw e, s1)"
proof -
  let ?s0 = "emit EvOnPublish s"
  have q: "prefix (trace ?s0) (trace (snd (onPublish env config (pluginOnPublish env) ?s0)))"
      "\<forall>n. fst (onPublish env config (pluginOnPublish env) ?s0) \<noteq> Exit n"
    using onPublish_quiet [of ?s0 env config "pluginOnPublish env"] by blast+
  have p0: "prefix (trace s) (trace ?s0)" by (simp add: emit_simps)
  show ?thesis
  proof (cases "onPublish env config (pluginOnPublish env) ?s0" rule: outcome_cases)
    case (1 u s1)
    have "prefix (trace ?s0) (trace s1)" using q(1) by (simp add: 1)
    with p0 have "prefix (trace s) (trace s1)" by (metis prefix_order.trans)
    then show ?thesis using publish_Return [OF 1] returns by blast
  next
    case (2 e s1)
    have "prefix (trace ?s0) (trace s1)" using q(1) by (simp add: 2)
    with p0 have "prefix (trace s) (trace s1)" by (metis prefix_order.trans)
    then show ?thesis using publish_Throw [OF 2] exits 2 by blast
  next
    case (3 n s1)
    then show ?thesis using q(2) by simp
  qed
qed

section \<open>Properties of the stages of the pipeline\<close>

lemma setDefaultConfig_fields:
  "source (setDefaultConfig config) = source config"
  "destination (setDefaultConfig config) = destination config"
  "plugins (setDefaultConfig config) = plugins config"
  "debug (setDefaultConfig config) = debug config"
  by (simp_all add: setDefaultConfig_def Let_def)

lemma setDefaultConfig_populated:
  "includes (setDefaultConfig config) \<noteq> None"
  "excludes (setDefaultConfig config) \<noteq> None"
  "truthy (index (setDefaultConfig config))"
  "truthy (package (setDefaultConfig config))"
  by (simp_all add: setDefaultConfig_def Let_def truthy_def)

lemma setDefaultConfig_defaults:
  "includes (setDefaultConfig config) =
     (if includes config = None then Some [backslash # ''.(js|es6)$''] else includes config)"
  "excludes (setDefaultConfig config) =
     (if excludes config = None
      then Some [backslash # ''.config'' @ backslash # ''.(js|es6)$''] else excludes config)"
  "index (setDefaultConfig config) =
     (if truthy (index config) then index config else Some ''./README.md'')"
  "package (setDefaultConfig config) =
     (if truthy (package config) then package config else Some ''./package.json'')"
  by (simp_all add: setDefaultConfig_def Let_def)

lemma prefix_emit_left: "prefix (trace (emit e s)) (trace s1) \<Longrightarrow> prefix (trace s) (trace s1)"
  by (auto simp: emit_simps prefix_def)

lemma prefix_trace_trans:
  "prefix (trace s) (trace s1) \<Longrightarrow> prefix (trace s1) (trace s2) \<Longrightarrow> prefix (trace s) (trace s2)"
  by (rule prefix_order.trans)

lemma compilePatterns_ok:
  "\<forall>v\<in>set vs. regexValid env v \<Longrightarrow> compilePatterns env (Some vs) s = (Return vs, s)"
  by (simp add: compilePatterns_def find_None_iff [THEN iffD2])

lemma compilePatterns_bad:
  assumes "\<not> (\<forall>v\<in>set vs. regexValid env v)"
  shows "\<exists>v. compilePatterns env (Some vs) s = (Throw (SyntaxError v), s)"
proof (cases "find (\<lambda>v. \<not> regexValid env v) vs")
  case None
  with assms show ?thesis by (auto simp: find_None_iff)
next
  case (Some v)
  then show ?thesis by (simp add: compilePatterns_def)
qed

lemma readPackage_returns:
  "\<exists>pn mf s1. readPackage env config s = (Return (pn, mf), s1) \<and> files s1 = files s \<and>
      results s1 = results s \<and> asts s1 = asts s \<and> prefix (trace s) (trace s1)"
proof (cases "truthy (package config)")
  case False
  then show ?thesis by (simp add: readPackage_def)
next
  case True
  then obtain p where p: "package config = Some p" by (auto simp: truthy_def split: option.splits)
  show ?thesis
  proof (cases "files s p")
    case None
    then show ?thesis using True p by (simp add: readPackage_def readFileSync_def emit_simps)
  next
    case (Some t)
    then show ?thesis
      using True p
      by (cases "jsonParsePackage env t")
         (auto simp: readPackage_def readFileSync_def emit_simps)
  qed
qed

lemma prepare_shape:
  assumes inc: "includes config = Some incs" and exc: "excludes config = Some excs"
    and src: "source config = Some src"
  shows "(\<exists>pn mf s1.
            prepare env config s =
              (Return \<lparr>cSource = src, cIncludes = incs, cExcludes = excs, cPackageName = pn,
                       cMainFilePath = mf, cSourceDirPath = pathResolve1 env src\<rparr>, s1) \<and>
            files s1 = files s \<and> results s1 = [] \<and> asts s1 = [] \<and>
            prefix (trace s) (trace s1) \<and>
            (\<forall>v\<in>set incs. regexValid env v) \<and> (\<forall>v\<in>set excs. regexValid env v)) \<or>
         (\<exists>e s1. prepare env config s = (Throw e, s1) \<and> files s1 = files s \<and>
            \<not> ((\<forall>v\<in>set incs. regexValid env v) \<and> (\<forall>v\<in>set excs. regexValid env v)))"
proof -
  let ?s0 = "emit (EvSetLoggerDebug (debug config = Some True)) s"
  show ?thesis
  proof (cases "\<forall>v\<in>set incs. regexValid env v")
    case False
    then obtain v where "compilePatterns env (Some incs) ?s0 = (Throw (SyntaxError v), ?s0)"
      using compilePatterns_bad by blast
    then have "prepare env config s = (Throw (SyntaxError v), ?s0)"
      by (simp add: prepare_def andThen_def inc)
    then show ?thesis using False by (simp add: emit_simps)
  next
    case incOk: True
    then have c1: "compilePatterns env (Some incs) ?s0 = (Return incs, ?s0)"
      by (rule compilePatterns_ok)
    show ?thesis
    proof (cases "\<forall>v\<in>set excs. regexValid env v")
      case False
      then obtain v where "compilePatterns env (Some excs) ?s0 = (Throw (SyntaxError v), ?s0)"
        using compilePatterns_bad by blast
      then have "prepare env config s = (Throw (SyntaxError v), ?s0)"
        by (simp add: prepare_def andThen_def inc exc c1)
      then show ?thesis using False by (simp add: emit_simps)
    next
      case excOk: True
      then have c2: "compilePatterns env (Some excs) ?s0 = (Return excs, ?s0)"
        by (rule compilePatterns_ok)
      obtain pn mf s1 where rp: "readPackage env config ?s0 = (Return (pn, mf), s1)"
        and f: "files s1 = files ?s0" and t: "prefix (trace ?s0) (trace s1)"
        using readPackage_returns [of env config ?s0] by blast
      have "prepare env config s =
              (Return \<lparr>cSource = src, cIncludes = incs, cExcludes = excs, cPackageName = pn,
                       cMainFilePath = mf, cSourceDirPath = pathResolve1 env src\<rparr>,
               s1\<lparr>results := [], asts := []\<rparr>)"
        by (simp add: prepare_def andThen_def inc exc src c1 c2 rp)
      moreover have "prefix (trace s) (trace s1)"
        using t by (rule prefix_emit_left)
      moreover have "files s1 = files s" using f by (simp add: emit_simps)
      ultimately show ?thesis using incOk excOk by simp
    qed
  qed
qed

lemma generateForPackageJSON_returns:
  "\<exists>tag s1. generateForPackageJSON env config s = (Return tag, s1) \<and> files s1 = files s \<and>
      results s1 = results s \<and> asts s1 = asts s \<and> prefix (trace s) (trace s1)"
proof (cases "package config")
  case None
  then show ?thesis by (simp add: generateForPackageJSON_def)
next
  case (Some p)
  then show ?thesis
    by (cases "files s p") (simp_all add: generateForPackageJSON_def readFileSync_def emit_simps)
qed

lemma generateForIndex_readable:
  assumes "index config = Some indexPath" and "files s indexPath = Some indexContent"
  shows "generateForIndex env config s =
           (Return \<lparr>kind = ''index'', content = indexContent,
                    longname = pathResolve1 env indexPath, name = indexPath,
                    static = True, access = ''public'', docId = None\<rparr>,
            emit (EvReadFile indexPath) s)"
  using assms by (simp add: generateForIndex_def andThen_def readFileSync_def)

lemma generateForIndex_unreadable:
  assumes "index config = Some indexPath" and "files s indexPath = None"
  shows "generateForIndex env config s = (Throw (FsError indexPath), emit (EvReadFile indexPath) s)"
  using assms by (simp add: generateForIndex_def andThen_def readFileSync_def)

lemma appendSyntheticDocs_ok:
  assumes "index config = Some indexPath" and "files s indexPath = Some indexContent"
  shows "\<exists>s1. appendSyntheticDocs env config s = (Return (), s1) \<and> files s1 = files s \<and>
           asts s1 = asts s \<and> prefix (trace s) (trace s1)"
proof -
  let ?tag = "\<lparr>kind = ''index'', content = indexContent,
                    longname = pathResolve1 env indexPath, name = indexPath,
                    static = True, access = ''public'', docId = None\<rparr>"
  obtain s1 where a: "(if truthy (index config)
            then andThen (generateForIndex env config) pushResult
            else (\<lambda>s. (Return (), s))) s = (Return (), s1)"
    and s1: "files s1 = files s" "asts s1 = asts s" "prefix (trace s) (trace s1)"
  proof (cases "truthy (index config)")
    case True
    have "andThen (generateForIndex env config) pushResult s =
            (Return (), (emit (EvReadFile indexPath) s)\<lparr>results := results s @ [?tag]\<rparr>)"
      by (simp add: andThen_def generateForIndex_readable [OF assms] pushResult_def emit_simps)
    then show ?thesis using True that by (simp add: emit_simps)
  next
    case False
    then show ?thesis using that by simp
  qed
  obtain s3 where b: "(if truthy (package config)
      then andThen (generateForPackageJSON env config) pushResult
      else (\<lambda>s. (Return (), s))) s1 = (Return (), s3)"
    and s3: "files s3 = files s1" "asts s3 = asts s1" "prefix (trace s1) (trace s3)"
  proof (cases "truthy (package config)")
    case True
    obtain tag s2 where g: "generateForPackageJSON env config s1 = (Return tag, s2)"
      and s2: "files s2 = files s1" "asts s2 = asts s1" "prefix (trace s1) (trace s2)"
      using generateForPackageJSON_returns [of env config s1] by blast
    have "andThen (generateForPackageJSON env config) pushResult s1 =
            (Return (), s2\<lparr>results := results s2 @ [tag]\<rparr>)"
      by (simp add: andThen_def g pushResult_def)
    then show ?thesis using True that s2 by simp
  next
    case False
    then show ?thesis using that by simp
  qed
  have "appendSyntheticDocs env config s = (Return (), s3)"
    unfolding appendSyntheticDocs_def
    by (subst andThen_def) (simp only: a b prod.case outcome.case)
  moreover have "files s3 = files s" "asts s3 = asts s" using s1 s3 by simp_all
  moreover have "prefix (trace s) (trace s3)"
    using s1(3) s3(3) by (rule prefix_trace_trans)
  ultimately show ?thesis by blast
qed

lemma writeAsts_ok:
  assumes "destination config = Some dest"
  shows "\<exists>s1. writeAsts env config trees s = (Return (), s1) \<and> prefix (trace s) (trace s1)"
proof (induction trees arbitrary: s)
  case Nil
  show ?case by simp
next
  case (Cons t trees)
  obtain filePath ast where t: "t = (filePath, ast)" by (cases t)
  let ?s1 = "snd (outputFileSync (pathResolve env dest (''ast/'' @ filePath @ ''.json''))
                  (stringifyAst env ast) s)"
  have o: "outputFileSync (pathResolve env dest (''ast/'' @ filePath @ ''.json''))
                  (stringifyAst env ast) s = (Return (), ?s1)"
    by (simp add: outputFileSync_def)
  have p: "prefix (trace s) (trace ?s1)" by (simp add: outputFileSync_simps)
  obtain s2 where "writeAsts env config trees ?s1 = (Return (), s2)" "prefix (trace ?s1) (trace s2)"
    using Cons.IH [of ?s1] by blast
  moreover have "writeAsts env config (t # trees) s = writeAsts env config trees ?s1"
    by (simp add: t assms outputFileSync_def)
  ultimately show ?case using p by (auto intro: prefix_trace_trans)
qed

lemma prefix_mem: "prefix xs ys \<Longrightarrow> x \<in> set xs \<Longrightarrow> x \<in> set ys"
  by (auto simp: prefix_def)

text \<open>Once the last stage is reached, \<^verbatim>\<open>index.json\<close> is written; the stage returns, or
  \<^verbatim>\<open>_publish\<close> exits with code 1.\<close>

lemma finish_writes_index:
  assumes dest: "destination config = Some dest"
  shows "(fst (finish env config s) = Return () \<or> fst (finish env config s) = Exit 1) \<and>
         EvWriteFile (pathResolve env dest ''index.json'')
           (stringifyDocs env (pluginOnHandleDocs env (resolveDuplication (results s))))
           \<in> set (trace (snd (finish env config s)))"
proof -
  let ?docs = "pluginOnHandleDocs env (resolveDuplication (results s))"
  let ?s2 = "emit (EvOnHandleDocs (resolveDuplication (results s)))
               (s\<lparr>results := ?docs\<rparr>)"
  let ?ev = "EvWriteFile (pathResolve env dest ''index.json'') (stringifyDocs env ?docs)"
  let ?s3 = "snd (outputFileSync (pathResolve env dest ''index.json'') (stringifyDocs env ?docs) ?s2)"
  have w: "writeIndexJson env config ?s2 = (Return (), ?s3)"
    by (simp add: writeIndexJson_def dest outputFileSync_def emit_simps)
  have ev3: "?ev \<in> set (trace ?s3)" by (simp add: outputFileSync_simps)
  obtain s4 where wa: "writeAsts env config (asts ?s3) ?s3 = (Return (), s4)"
    and p4: "prefix (trace ?s3) (trace s4)"
    using writeAsts_ok [OF dest] by blast
  have ev4: "?ev \<in> set (trace s4)" using p4 ev3 by (rule prefix_mem)
  have fin: "finish env config s =
          andThen (publish env config) (\<lambda>u s. (Return (), emit EvOnComplete s)) s4"
    unfolding finish_def
    by (simp add: andThen_def w wa)
  show ?thesis
  proof (cases rule: publish_cases [of env config s4])
    case (returns s5)
    then have "finish env config s = (Return (), emit EvOnComplete s5)"
      by (simp add: fin andThen_def)
    moreover have "?ev \<in> set (trace s5)" using returns(2) ev4 by (rule prefix_mem)
    ultimately show ?thesis by (simp add: emit_simps)
  next
    case (exits e s5)
    then have "finish env config s = (Exit 1, emit (EvShowError e) s5)"
      by (simp add: fin andThen_def)
    moreover have "?ev \<in> set (trace s5)" using exits(2) ev4 by (rule prefix_mem)
    ultimately show ?thesis by (simp add: emit_simps)
  qed
qed

lemma writeAsts_prefix:
  "prefix (trace s) (trace (snd (writeAsts env config trees s)))"
proof (cases "destination config")
  case None
  then show ?thesis by (cases trees) auto
next
  case (Some dest)
  then show ?thesis using writeAsts_ok [OF Some, of env trees s] by auto
qed

lemma finish_prefix: "prefix (trace s) (trace (snd (finish env config s)))"
proof -
  have p: "prefix (trace s') (trace (snd (publish env config s')))" for s'
    by (cases rule: publish_cases [of env config s']) (simp_all add: emit_simps)
  have w: "prefix (trace s') (trace (snd (writeIndexJson env config s')))" for s'
    by (simp add: writeIndexJson_def outputFileSync_simps split: option.splits)
  show ?thesis
    unfolding finish_def
    by (intro andThen_prefix) (simp_all add: emit_simps p w writeAsts_prefix)
qed

section \<open>Whole runs\<close>

lemma walk_listed:
  "readdirSync env dirPath = Some entries \<Longrightarrow>
   walk env dirPath cb s = walkEntries env cb dirPath entries (emit (EvReadDir dirPath) s)"
  by (simp add: walk_def)

lemma walkEntries_callback_quiet:
  "prefix (trace s) (trace (snd (walkEntries env (callback env c) dirPath entries s)))"
  "files (snd (walkEntries env (callback env c) dirPath entries s)) = files s"
  "fst (walkEntries env (callback env c) dirPath entries s) \<noteq> Exit n"
  using walkEntries_quiet [of "callback env c" s env dirPath entries]
  by (simp_all add: callback_quiet)

text \<open>
  A run in which the patterns compile, the source tree can be listed, the extractor never
  raises, the logger returns from every report of a parse error and the index document
  can be read: whatever the parser does, \<^verbatim>\<open>index.json\<close> is written, and the run returns
  or ends in \<^verbatim>\<open>_publish\<close>.
\<close>

lemma generateWith_completes:
  assumes src: "source config = Some src" and dest: "destination config = Some dest"
    and inc: "includes config = Some incs" and exc: "excludes config = Some excs"
    and valid: "\<forall>v\<in>set incs. regexValid env v" "\<forall>v\<in>set excs. regexValid env v"
    and listed: "readdirSync env src = Some entries" and tree: "walkable entries"
    and push: "\<And>factory node parent. \<exists>factory'. factoryPush env factory node parent = Inr factory'"
    and logs: "\<And>p e. esParse env p = Inl e \<Longrightarrow> loggerShowFile env p e = None"
    and idx: "index config = Some indexPath" and readable: "files s indexPath = Some indexContent"
  shows "(fst (generateWith env config s) = Return () \<or> fst (generateWith env config s) = Exit 1) \<and>
         (\<exists>docs. EvWriteFile (pathResolve env dest ''index.json'') (stringifyDocs env docs)
                    \<in> set (trace (snd (generateWith env config s)))) \<and>
         prefix (trace s) (trace (snd (generateWith env config s)))"
proof -
  obtain c s1 where prep: "prepare env config s = (Return c, s1)" and c: "cSource c = src"
    and s1: "files s1 = files s" "prefix (trace s) (trace s1)"
    using prepare_shape [OF inc exc src, of env s] valid by auto
  let ?s1' = "emit (EvReadDir src) s1"
  obtain s2 where w: "walkEntries env (callback env c) src entries ?s1' = (Return (), s2)"
    using walkEntries_Return [OF tree, of "callback env c" env src ?s1']
      callback_never_throws [OF push logs] by blast
  have s2: "files s2 = files s" "prefix (trace s) (trace s2)"
  proof -
    have "files (snd (walkEntries env (callback env c) src entries ?s1')) = files ?s1'"
      by (rule walkEntries_callback_quiet)
    then show "files s2 = files s" by (simp add: w s1 emit_simps)
    have "prefix (trace ?s1') (trace (snd (walkEntries env (callback env c) src entries ?s1')))"
      by (rule walkEntries_callback_quiet)
    then have "prefix (trace s1) (trace s2)" by (simp only: w snd_conv) (rule prefix_emit_left)
    with s1(2) show "prefix (trace s) (trace s2)" by (rule prefix_trace_trans)
  qed
  have wk: "walk env (cSource c) (callback env c) s1 = (Return (), s2)"
    by (simp add: c walk_listed [OF listed] w)
  obtain s3 where ap: "appendSyntheticDocs env config s2 = (Return (), s3)"
    and s3: "prefix (trace s2) (trace s3)"
    using appendSyntheticDocs_ok [OF idx, of s2 indexContent env] readable s2(1) by auto
  have g: "generateWith env config s = finish env config s3"
    unfolding generateWith_def
    by (subst andThen_def) (simp add: prep, subst andThen_def, simp add: wk, subst andThen_def,
        simp add: ap)
  have f: "(fst (finish env config s3) = Return () \<or> fst (finish env config s3) = Exit 1) \<and>
         EvWriteFile (pathResolve env dest ''index.json'')
           (stringifyDocs env (pluginOnHandleDocs env (resolveDuplication (results s3))))
           \<in> set (trace (snd (finish env config s3)))"
    by (rule finish_writes_index [OF dest])
  have "prefix (trace s3) (trace (snd (finish env config s3)))"
    by (rule finish_prefix)
  with s2(2) s3 have "prefix (trace s) (trace (snd (finish env config s3)))"
    by (blast intro: prefix_trace_trans)
  with f show ?thesis unfolding g by blast
qed

text \<open>A run whose index document cannot be read throws, also when nothing else fails.\<close>

lemma generateWith_index_unreadable:
  assumes src: "source config = Some src"
    and inc: "includes config = Some incs" and exc: "excludes config = Some excs"
    and valid: "\<forall>v\<in>set incs. regexValid env v" "\<forall>v\<in>set excs. regexValid env v"
    and listed: "readdirSync env src = Some entries" and tree: "walkable entries"
    and push: "\<And>factory node parent. \<exists>factory'. factoryPush env factory node parent = Inr factory'"
    and logs: "\<And>p e. esParse env p = Inl e \<Longrightarrow> loggerShowFile env p e = None"
    and idx: "index config = Some indexPath" "truthy (index config)"
    and unreadable: "files s indexPath = None"
  shows "fst (generateWith env config s) = Throw (FsError indexPath)"
proof -
  obtain c s1 where prep: "prepare env config s = (Return c, s1)" and c: "cSource c = src"
    and s1: "files s1 = files s"
    using prepare_shape [OF inc exc src, of env s] valid by auto
  let ?s1' = "emit (EvReadDir src) s1"
  obtain s2 where w: "walkEntries env (callback env c) src entries ?s1' = (Return (), s2)"
    using walkEntries_Return [OF tree, of "callback env c" env src ?s1']
      callback_never_throws [OF push logs] by blast
  have "files (snd (walkEntries env (callback env c) src entries ?s1')) = files ?s1'"
    by (rule walkEntries_callback_quiet)
  then have s2: "files s2 = files s" by (simp add: w s1 emit_simps)
  have wk: "walk env (cSource c) (callback env c) s1 = (Return (), s2)"
    by (simp add: c walk_listed [OF listed] w)
  have "generateForIndex env config s2 = (Throw (FsError indexPath), emit (EvReadFile indexPath) s2)"
    using idx(1) unreadable s2 by (simp add: generateForIndex_unreadable)
  then have ap: "appendSyntheticDocs env config s2 =
                   (Throw (FsError indexPath), emit (EvReadFile indexPath) s2)"
    by (simp add: appendSyntheticDocs_def andThen_def idx(2))
  have "generateWith env config s = (Throw (FsError indexPath), emit (EvReadFile indexPath) s2)"
    unfolding generateWith_def
    by (subst andThen_def) (simp add: prep, subst andThen_def, simp add: wk, subst andThen_def,
        simp add: ap)
  then show ?thesis by simp
qed

lemma generate_after_asserts:
  assumes "truthy (source config)" "truthy (destination config)"
  shows "generate env config s =
           generateWith env (setDefaultConfig (pluginOnHandleConfig env config))
             (emit (EvOnHandleConfig config)
                (emit EvOnStart (emit (EvPluginInit (plugins config)) s)))"
  using assms by (simp add: generate_def Let_def)

lemma generate_asserts_fail:
  assumes "\<not> truthy (source config) \<or> \<not> truthy (destination config)"
  shows "generate env config s = (Throw AssertionError, s)"
  using assms by (auto simp: generate_def)

section \<open>What each file contributes\<close>

lemma parsedFiles_append: "parsedFiles (xs @ ys) = parsedFiles xs @ parsedFiles ys"
  by (induction xs rule: parsedFiles.induct) simp_all

lemma parsedFiles_emit:
  "parsedFiles (trace (emit ev s)) = parsedFiles (trace s) @ parsedFiles [ev]"
  by (simp add: emit_simps parsedFiles_append)

lemma pushAll_pushes:
  "pushes env nodes factory = Some factory' \<Longrightarrow>
   pushAll env filePath nodes factory s = (Return factory', s)"
proof (induction nodes arbitrary: factory)
  case Nil
  then show ?case by simp
next
  case (Cons np nodes)
  obtain node parent where np: "np = (node, parent)" by (cases np)
  show ?case
  proof (cases "factoryPush env factory node parent")
    case (Inl e)
    then show ?thesis using Cons.prems by (simp add: np)
  next
    case (Inr fac)
    then show ?thesis using Cons.prems Cons.IH [of fac] by (simp add: np)
  qed
qed

lemma pushAll_raise_at:
  assumes "pushes env pre factory = Some factory'"
    and "factoryPush env factory' node parent = Inl e"
  shows "pushAll env filePath (pre @ (node, parent) # post) factory s =
           (Throw e, emit (EvShowNode filePath node) s)"
  using assms
proof (induction pre arbitrary: factory)
  case Nil
  then show ?case by simp
next
  case (Cons np pre)
  obtain n p where np: "np = (n, p)" by (cases np)
  show ?case
  proof (cases "factoryPush env factory n p")
    case (Inl e')
    then show ?thesis using Cons.prems by (simp add: np)
  next
    case (Inr fac)
    then show ?thesis using Cons.prems Cons.IH [of fac] by (simp add: np)
  qed
qed



text \<open>What the callback adds for one file, when its extraction returns.\<close>

lemma callback_contributes:
  assumes ok: "selected env c filePath \<Longrightarrow> extracts env c filePath"
  shows "\<exists>s'. callback env c filePath s = (Return (), s') \<and>
           results s' = results s @ fileDocs env c filePath \<and>
           asts s' = asts s @ fileAsts env c filePath \<and>
           parsedFiles (trace s') =
             parsedFiles (trace s) @ (if selected env c filePath then [filePath] else [])"
proof (cases "selected env c filePath")
  case False
  then have "callback env c filePath s = (Return (), s)"
    by (intro callback_skip) (auto simp: selected_def)
  then show ?thesis using False by (simp add: fileDocs_def fileAsts_def)
next
  case True
  then have inc: "includeLoop env (cIncludes c) (pathRelative env (cSourceDirPath c) filePath)"
    and exc: "\<not> excludeLoop env (cExcludes c) (pathRelative env (cSourceDirPath c) filePath)"
    by (simp_all add: selected_def)
  note cb = callback_selected [OF inc exc, of s]
  let ?s0 = "emit (EvConsoleLog (''parse: '' @ filePath)) s"
  let ?s1 = "emit (EvParse filePath) (emit (EvLoggerInfo (''parsing: '' @ filePath)) ?s0)"
  show ?thesis
  proof (cases "esParse env filePath")
    case (Inl e)
    have "loggerShowFile env filePath e = None"
      using ok [OF True] Inl by (simp add: extracts_def)
    with Inl have t: "traverse env (cSource c) filePath (cPackageName c) (cMainFilePath c) ?s0 =
               (Return None, emit (EvShowFile filePath e) ?s1)"
      by (rule traverse_parse_fails)
    have "callback env c filePath s = (Return (), emit (EvShowFile filePath e) ?s1)"
      by (simp only: cb andThen_def t prod.case outcome.case option.case)
    then show ?thesis
      using True Inl by (simp add: fileDocs_def fileAsts_def emit_simps parsedFiles_append)
  next
    case (Inr ast)
    let ?fac = "newDocFactory env ast (cSource c) filePath (cPackageName c) (cMainFilePath c)"
    obtain factory where p: "pushes env (astTraverse env ast) ?fac = Some factory"
      using ok [OF True] Inr by (auto simp: extracts_def)
    have "pushAll env filePath (astTraverse env ast) ?fac ?s1 = (Return factory, ?s1)"
      using p by (rule pushAll_pushes)
    then have t: "traverse env (cSource c) filePath (cPackageName c) (cMainFilePath c) ?s0 =
               (Return (Some (factoryResults env factory, ast)), ?s1)"
      by (rule traverse_ok [OF Inr])
    have "callback env c filePath s =
            (Return (),
             ?s1\<lparr>results := results ?s1 @ factoryResults env factory,
                  asts := asts ?s1 @ [(''source'' @ pathSep env @
                            pathRelative env (cSourceDirPath c) filePath, ast)]\<rparr>)"
      by (simp only: cb andThen_def t prod.case outcome.case option.case)
    then show ?thesis
      using True Inr p by (simp add: fileDocs_def fileAsts_def emit_simps parsedFiles_append)
  qed
qed

text \<open>The extractor raises on a node: \<^verbatim>\<open>_traverse\<close> and the callback throw its error.\<close>

lemma traverse_raise_at:
  assumes parse: "esParse env filePath = Inr ast"
    and nodes: "astTraverse env ast = pre @ (node, parent) # post"
    and before: "pushes env pre
                   (newDocFactory env ast inDirPath filePath packageName mainFilePath) = Some factory"
    and raise: "factoryPush env factory node parent = Inl e"
  shows "traverse env inDirPath filePath packageName mainFilePath s =
           (Throw e,
            emit (EvShowNode filePath node)
              (emit (EvParse filePath) (emit (EvLoggerInfo (''parsing: '' @ filePath)) s)))"
proof -
  let ?s1 = "emit (EvParse filePath) (emit (EvLoggerInfo (''parsing: '' @ filePath)) s)"
  have "pushAll env filePath (astTraverse env ast)
          (newDocFactory env ast inDirPath filePath packageName mainFilePath) ?s1 =
        (Throw e, emit (EvShowNode filePath node) ?s1)"
    unfolding nodes using before raise by (rule pushAll_raise_at)
  then show ?thesis by (rule traverse_push_raises [OF parse])
qed

lemma callback_raise_at:
  assumes sel: "selected env c filePath"
    and parse: "esParse env filePath = Inr ast"
    and nodes: "astTraverse env ast = pre @ (node, parent) # post"
    and before: "pushes env pre
                   (newDocFactory env ast (cSource c) filePath (cPackageName c) (cMainFilePath c))
                 = Some factory"
    and raise: "factoryPush env factory node parent = Inl e"
  shows "callback env c filePath s =
           (Throw e,
            emit (EvShowNode filePath node)
              (emit (EvParse filePath) (emit (EvLoggerInfo (''parsing: '' @ filePath))
                 (emit (EvConsoleLog (''parse: '' @ filePath)) s))))"
proof -
  have inc: "includeLoop env (cIncludes c) (pathRelative env (cSourceDirPath c) filePath)"
    and exc: "\<not> excludeLoop env (cExcludes c) (pathRelative env (cSourceDirPath c) filePath)"
    using sel by (simp_all add: selected_def)
  note t = traverse_raise_at [OF parse nodes before raise,
      of "emit (EvConsoleLog (''parse: '' @ filePath)) s"]
  show ?thesis
    by (simp only: callback_selected [OF inc exc] andThen_def t prod.case outcome.case)
qed

section \<open>The walk, file by file\<close>

text \<open>
  A walk over a tree that can be listed, with a callback that returns on each of its
  files: what the callback adds to an observation of the state, file by file, is what the
  walk adds, in the order of the walk.
\<close>

lemma walkEntries_collect:
  assumes "walkable entries"
    and "\<And>p s. obs (emit (EvStat p) s) = obs s"
    and "\<And>p s. obs (emit (EvReadDir p) s) = obs s"
    and "\<And>p s. p \<in> set (walkFiles env dirPath entries) \<Longrightarrow>
           \<exists>s'. cb p s = (Return (), s') \<and> obs s' = obs s @ X p"
  shows "fst (walkEntries env cb dirPath entries s) = Return () \<and>
         obs (snd (walkEntries env cb dirPath entries s)) =
           obs s @ concat (map X (walkFiles env dirPath entries))"
  using assms
proof (induction env cb dirPath entries s rule: walkEntries.induct)
  case (1 env cb dirPath s)
  show ?case by simp
next
  case (2 env cb dirPath entry node rest s)
  note w = "2.prems"(1) and st1 = "2.prems"(2) and st2 = "2.prems"(3) and cbP = "2.prems"(4)
  let ?p = "pathResolve env dirPath entry"
  let ?s1 = "emit (EvStat ?p) s"
  have cbrest: "\<exists>s'. cb p s = (Return (), s') \<and> obs s' = obs s @ X p"
    if "p \<in> set (walkFiles env dirPath rest)" for p s
    using cbP [of p s] that by simp
  show ?case
  proof (cases node)
    case File
    have "?p \<in> set (walkFiles env dirPath ((entry, node) # rest))" by (simp add: File)
    then obtain s2 where c: "cb ?p ?s1 = (Return (), s2)" and o: "obs s2 = obs ?s1 @ X ?p"
      using cbP [of ?p ?s1] by blast
    have wrest: "walkable rest" using w File by simp
    have ih: "fst (walkEntries env cb dirPath rest s2) = Return () \<and>
          obs (snd (walkEntries env cb dirPath rest s2)) =
            obs s2 @ concat (map X (walkFiles env dirPath rest))"
      using "2.IH"(1) [OF refl refl File c [symmetric] refl wrest st1 st2 cbrest] .
    have "walkEntries env cb dirPath ((entry, node) # rest) s = walkEntries env cb dirPath rest s2"
      by (simp add: File walkEntries_File c)
    with ih o show ?thesis by (simp add: File st1)
  next
    case (Dir es)
    let ?s2 = "emit (EvReadDir ?p) ?s1"
    have wes: "walkable es" and wrest: "walkable rest" using w Dir by simp_all
    have cbes: "\<exists>s'. cb p s = (Return (), s') \<and> obs s' = obs s @ X p"
      if "p \<in> set (walkFiles env ?p es)" for p s
      using cbP [of p s] that by (simp add: Dir)
    have ih1: "fst (walkEntries env cb ?p es ?s2) = Return () \<and>
          obs (snd (walkEntries env cb ?p es ?s2)) =
            obs ?s2 @ concat (map X (walkFiles env ?p es))"
      using "2.IH"(2) [OF refl refl Dir wes st1 st2 cbes] .
    obtain s3 where c: "walkEntries env cb ?p es ?s2 = (Return (), s3)"
      using ih1 by (cases "walkEntries env cb ?p es ?s2") auto
    have o: "obs s3 = obs s @ concat (map X (walkFiles env ?p es))"
      using ih1 by (simp add: c st1 st2)
    have ih: "fst (walkEntries env cb dirPath rest s3) = Return () \<and>
          obs (snd (walkEntries env cb dirPath rest s3)) =
            obs s3 @ concat (map X (walkFiles env dirPath rest))"
      using "2.IH"(3) [OF refl refl Dir c [symmetric] refl wrest st1 st2 cbrest] .
    have "walkEntries env cb dirPath ((entry, node) # rest) s = walkEntries env cb dirPath rest s3"
      by (simp add: Dir walkEntries_Dir c)
    with ih o show ?thesis by (simp add: Dir)
  next
    case Other
    have wrest: "walkable rest" using w Other by simp
    have ih: "fst (walkEntries env cb dirPath rest ?s1) = Return () \<and>
          obs (snd (walkEntries env cb dirPath rest ?s1)) =
            obs ?s1 @ concat (map X (walkFiles env dirPath rest))"
      using "2.IH"(4) [OF refl refl Other wrest st1 st2 cbrest] .
    have "walkEntries env cb dirPath ((entry, node) # rest) s = walkEntries env cb dirPath rest ?s1"
      by (simp add: Other walkEntries_Other)
    with ih show ?thesis by (simp add: Other st1)
  next
    case NoStat
    then show ?thesis using w by simp
  next
    case NoList
    then show ?thesis using w by simp
  qed
qed

text \<open>
  A walk over a tree that can be listed, in which the callback returns on the files
  before \<open>f\<close> and throws on \<open>f\<close>: the walk ends there, with the callback's throw and
  with what the callback has added for the files before \<open>f\<close> and for \<open>f\<close>.
\<close>

lemma walkEntries_stops:
  assumes "walkable entries"
    and "walkFiles env dirPath entries = before @ f # after"
    and "\<And>p s. obs (emit (EvStat p) s) = obs s"
    and "\<And>p s. obs (emit (EvReadDir p) s) = obs s"
    and "\<And>p s. p \<in> set before \<Longrightarrow>
           \<exists>s'. cb p s = (Return (), s') \<and> obs s' = obs s @ X p"
    and "\<And>s. fst (cb f s) = Throw e \<and> obs (snd (cb f s)) = obs s @ X f"
  shows "fst (walkEntries env cb dirPath entries s) = Throw e \<and>
         obs (snd (walkEntries env cb dirPath entries s)) =
           obs s @ concat (map X before) @ X f \<and>
         (\<exists>s0. walkEntries env cb dirPath entries s = cb f s0)"
  using assms
proof (induction env cb dirPath entries s arbitrary: before after rule: walkEntries.induct)
  case (1 env cb dirPath s)
  then show ?case by simp
next
  case (2 env cb dirPath entry node rest s)
  note w = "2.prems"(1) and wf = "2.prems"(2) and st1 = "2.prems"(3) and st2 = "2.prems"(4)
    and cbR = "2.prems"(5) and cbT = "2.prems"(6)
  let ?p = "pathResolve env dirPath entry"
  let ?s1 = "emit (EvStat ?p) s"
  show ?case
  proof (cases node)
    case File
    have wf': "?p # walkFiles env dirPath rest = before @ f # after" using wf File by simp
    have wrest: "walkable rest" using w File by simp
    show ?thesis
    proof (cases before)
      case Nil
      then have pf: "?p = f" using wf' by simp
      have t: "fst (cb ?p ?s1) = Throw e" "obs (snd (cb ?p ?s1)) = obs ?s1 @ X f"
        using cbT [of ?s1] by (simp_all add: pf)
      obtain s2 where c: "cb ?p ?s1 = (Throw e, s2)"
        using t(1) by (cases "cb ?p ?s1") auto
      have "walkEntries env cb dirPath ((entry, node) # rest) s = (Throw e, s2)"
        by (simp add: File walkEntries_File c)
      moreover have "\<exists>s0. (Throw e, s2) = cb f s0" using c pf by metis
      ultimately show ?thesis using t(2) c by (simp add: Nil st1)
    next
      case (Cons b before')
      then have b: "b = ?p" and wf'': "walkFiles env dirPath rest = before' @ f # after"
        using wf' by simp_all
      obtain s2 where c: "cb ?p ?s1 = (Return (), s2)" and o: "obs s2 = obs ?s1 @ X ?p"
        using cbR [of ?p ?s1] by (auto simp: Cons b)
      have cbR': "\<exists>s'. cb p s = (Return (), s') \<and> obs s' = obs s @ X p"
        if "p \<in> set before'" for p s
        using cbR [of p s] that by (simp add: Cons)
      have ih: "fst (walkEntries env cb dirPath rest s2) = Throw e \<and>
          obs (snd (walkEntries env cb dirPath rest s2)) =
            obs s2 @ concat (map X before') @ X f \<and>
          (\<exists>s0. walkEntries env cb dirPath rest s2 = cb f s0)"
        using "2.IH"(1) [OF refl refl File c [symmetric] refl wrest wf'' st1 st2 cbR' cbT] .
      have "walkEntries env cb dirPath ((entry, node) # rest) s = walkEntries env cb dirPath rest s2"
        by (simp add: File walkEntries_File c)
      with ih o show ?thesis by (simp add: Cons b st1)
    qed
  next
    case (Dir es)
    let ?s2 = "emit (EvReadDir ?p) ?s1"
    have wes: "walkable es" and wrest: "walkable rest" using w Dir by simp_all
    have wf': "walkFiles env ?p es @ walkFiles env dirPath rest = before @ f # after"
      using wf Dir by simp
    then consider
      (inside) after1 where "walkFiles env ?p es = before @ f # after1"
    | (later) before2 where "before = walkFiles env ?p es @ before2"
        "walkFiles env dirPath rest = before2 @ f # after"
      by (auto simp: append_eq_append_conv2 append_eq_Cons_conv Cons_eq_append_conv)
    then show ?thesis
    proof cases
      case (inside after1)
      have ih1: "fst (walkEntries env cb ?p es ?s2) = Throw e \<and>
          obs (snd (walkEntries env cb ?p es ?s2)) = obs ?s2 @ concat (map X before) @ X f \<and>
          (\<exists>s0. walkEntries env cb ?p es ?s2 = cb f s0)"
        using "2.IH"(2) [OF refl refl Dir wes inside st1 st2 cbR cbT] .
      obtain s3 where c: "walkEntries env cb ?p es ?s2 = (Throw e, s3)"
        using ih1 by (cases "walkEntries env cb ?p es ?s2") auto
      have "walkEntries env cb dirPath ((entry, node) # rest) s = (Throw e, s3)"
        by (simp add: Dir walkEntries_Dir c)
      then show ?thesis using ih1 c by (simp add: st1 st2)
    next
      case (later before2)
      have cbes: "\<exists>s'. cb p s = (Return (), s') \<and> obs s' = obs s @ X p"
        if "p \<in> set (walkFiles env ?p es)" for p s
        using cbR [of p s] that by (simp add: later(1))
      have col: "fst (walkEntries env cb ?p es ?s2) = Return () \<and>
          obs (snd (walkEntries env cb ?p es ?s2)) =
            obs ?s2 @ concat (map X (walkFiles env ?p es))"
        using wes st1 st2 cbes by (rule walkEntries_collect)
      obtain s3 where c: "walkEntries env cb ?p es ?s2 = (Return (), s3)"
        using col by (cases "walkEntries env cb ?p es ?s2") auto
      have o: "obs s3 = obs s @ concat (map X (walkFiles env ?p es))"
        using col by (simp add: c st1 st2)
      have cbR': "\<exists>s'. cb p s = (Return (), s') \<and> obs s' = obs s @ X p"
        if "p \<in> set before2" for p s
        using cbR [of p s] that by (simp add: later(1))
      have ih: "fst (walkEntries env cb dirPath rest s3) = Throw e \<and>
          obs (snd (walkEntries env cb dirPath rest s3)) =
            obs s3 @ concat (map X before2) @ X f \<and>
          (\<exists>s0. walkEntries env cb dirPath rest s3 = cb f s0)"
        using "2.IH"(3) [OF refl refl Dir c [symmetric] refl wrest later(2) st1 st2 cbR' cbT] .
      have "walkEntries env cb dirPath ((entry, node) # rest) s = walkEntries env cb dirPath rest s3"
        by (simp add: Dir walkEntries_Dir c)
      with ih o show ?thesis by (simp add: later(1))
    qed
  next
    case Other
    have wrest: "walkable rest" using w Other by simp
    have wf': "walkFiles env dirPath rest = before @ f # after" using wf Other by simp
    have ih: "fst (walkEntries env cb dirPath rest ?s1) = Throw e \<and>
          obs (snd (walkEntries env cb dirPath rest ?s1)) =
            obs ?s1 @ concat (map X before) @ X f \<and>
          (\<exists>s0. walkEntries env cb dirPath rest ?s1 = cb f s0)"
      using "2.IH"(4) [OF refl refl Other wrest wf' st1 st2 cbR cbT] .
    have "walkEntries env cb dirPath ((entry, node) # rest) s = walkEntries env cb dirPath rest ?s1"
      by (simp add: Other walkEntries_Other)
    with ih show ?thesis by (simp add: st1)
  next
    case NoStat
    then show ?thesis using w by simp
  next
    case NoList
    then show ?thesis using w by simp
  qed
qed

section \<open>The stages around the walk\<close>


lemma kept_simps:
  "kept (emit (EvReadFile p) s) = kept s"
  "kept (emit (EvWriteFile p t) s) = kept s"
  "kept (emit (EvConsoleLog t) s) = kept s"
  "kept (emit (EvOnHandleContent t p) s) = kept s"
  "kept (emit (EvCopy p q) s) = kept s"
  "kept (emit EvOnPublish s) = kept s"
  "kept (emit (EvShowError e) s) = kept s"
  "kept (emit EvOnComplete s) = kept s"
  "kept (emit (EvOnHandleDocs docs) s) = kept s"
  "kept (emit (EvSetLoggerDebug b) s) = kept s"
  "kept (s\<lparr>files := fs\<rparr>) = kept s"
  "kept (s\<lparr>results := rs\<rparr>) = kept s"
  by (simp_all add: kept_def emit_simps parsedFiles_append)








lemma readPackage_result:
  "\<exists>pn mf s1. readPackage env config s = (Return (pn, mf), s1) \<and> files s1 = files s \<and>
      prefix (trace s) (trace s1) \<and> kept s1 = kept s \<and>
      (\<forall>s0. files s0 = files s \<longrightarrow> fst (readPackage env config s0) = Return (pn, mf))"
proof (cases "truthy (package config)")
  case False
  then show ?thesis by (simp add: readPackage_def)
next
  case True
  then obtain p where p: "package config = Some p" by (auto simp: truthy_def split: option.splits)
  show ?thesis
  proof (cases "files s p")
    case None
    then show ?thesis
      using True p by (simp add: readPackage_def readFileSync_def emit_simps kept_simps)
  next
    case (Some t)
    then show ?thesis
      using True p
      by (cases "jsonParsePackage env t")
         (auto simp: readPackage_def readFileSync_def emit_simps kept_simps)
  qed
qed

text \<open>With patterns that compile, the preparation returns the variables of the closure.\<close>

lemma prepare_closure:
  assumes inc: "includes config = Some incs" and exc: "excludes config = Some excs"
    and src: "source config = Some src"
    and valid: "\<forall>v\<in>set incs. regexValid env v" "\<forall>v\<in>set excs. regexValid env v"
    and pkg: "fst (readPackage env config s) = Return (pn, mf)"
  shows "\<exists>s1. prepare env config s =
              (Return \<lparr>cSource = src, cIncludes = incs, cExcludes = excs, cPackageName = pn,
                       cMainFilePath = mf, cSourceDirPath = pathResolve1 env src\<rparr>, s1) \<and>
            files s1 = files s \<and> results s1 = [] \<and> asts s1 = [] \<and>
            prefix (trace s) (trace s1) \<and> parsedFiles (trace s1) = parsedFiles (trace s)"
proof -
  let ?s0 = "emit (EvSetLoggerDebug (debug config = Some True)) s"
  have c1: "compilePatterns env (Some incs) ?s0 = (Return incs, ?s0)"
    using valid(1) by (rule compilePatterns_ok)
  have c2: "compilePatterns env (Some excs) ?s0 = (Return excs, ?s0)"
    using valid(2) by (rule compilePatterns_ok)
  obtain pn' mf' s1 where rp: "readPackage env config ?s0 = (Return (pn', mf'), s1)"
    and f: "files s1 = files ?s0" and t: "prefix (trace ?s0) (trace s1)"
    and k: "kept s1 = kept ?s0"
    and ind: "\<forall>s0. files s0 = files ?s0 \<longrightarrow> fst (readPackage env config s0) = Return (pn', mf')"
    using readPackage_result [of env config ?s0] by blast
  have "fst (readPackage env config s) = Return (pn', mf')"
    using ind by (simp add: emit_simps)
  with pkg have same: "pn' = pn" "mf' = mf" by simp_all
  have "prepare env config s =
          (Return \<lparr>cSource = src, cIncludes = incs, cExcludes = excs, cPackageName = pn,
                   cMainFilePath = mf, cSourceDirPath = pathResolve1 env src\<rparr>,
           s1\<lparr>results := [], asts := []\<rparr>)"
    by (simp add: prepare_def andThen_def inc exc src c1 c2 rp same)
  moreover have "prefix (trace s) (trace s1)"
    using t by (rule prefix_emit_left)
  moreover have "files s1 = files s" using f by (simp add: emit_simps)
  moreover have "parsedFiles (trace s1) = parsedFiles (trace s)"
    using k by (simp add: kept_def emit_simps parsedFiles_append)
  ultimately show ?thesis by simp
qed



section \<open>Whole runs, file by file\<close>

lemma concat_map_if: "concat (map (\<lambda>p. if P p then [p] else []) xs) = filter P xs"
  by (induction xs) simp_all



text \<open>
  A run in which the extraction of the files walked before \<open>filePath\<close> returns, and the
  extractor raises on a node of \<open>filePath\<close>: the run throws that error there.
\<close>

lemma generateWith_stops:
  assumes src: "source config = Some src"
    and inc: "includes config = Some incs" and exc: "excludes config = Some excs"
    and valid: "\<forall>v\<in>set incs. regexValid env v" "\<forall>v\<in>set excs. regexValid env v"
    and listed: "readdirSync env src = Some entries" and tree: "walkable entries"
    and pkg: "fst (readPackage env config s) = Return (pn, mf)"
    and c: "c = \<lparr>cSource = src, cIncludes = incs, cExcludes = excs, cPackageName = pn,
                  cMainFilePath = mf, cSourceDirPath = pathResolve1 env src\<rparr>"
    and wf: "walkFiles env src entries = before @ filePath # after"
    and ok: "\<And>p. p \<in> set before \<Longrightarrow> selected env c p \<Longrightarrow> extracts env c p"
    and sel: "selected env c filePath"
    and thr: "\<And>s0. callback env c filePath s0 =
                (Throw e, emit ev (emit (EvParse filePath)
                   (emit (EvLoggerInfo (''parsing: '' @ filePath))
                      (emit (EvConsoleLog (''parse: '' @ filePath)) s0))))"
    and ev: "parsedFiles [ev] = []"
  shows "fst (generateWith env config s) = Throw e \<and>
         files (snd (generateWith env config s)) = files s \<and>
         last (trace (snd (generateWith env config s))) = ev \<and>
         parsedFiles (trace (snd (generateWith env config s))) =
           parsedFiles (trace s) @ filter (selected env c) before @ [filePath]"
proof -
  obtain s1 where prep: "prepare env config s = (Return c, s1)"
    and s1: "files s1 = files s" "parsedFiles (trace s1) = parsedFiles (trace s)"
    using prepare_closure [OF inc exc src valid pkg] unfolding c by blast
  have cs: "cSource c = src" by (simp add: c)
  let ?s0 = "emit (EvReadDir src) s1"
  let ?W = "walkEntries env (callback env c) src entries ?s0"
  let ?X = "\<lambda>p. if selected env c p then [p] else []"
  have cbR: "\<exists>s'. callback env c p s = (Return (), s') \<and>
               parsedFiles (trace s') = parsedFiles (trace s) @ ?X p"
    if "p \<in> set before" for p and s :: "('a, 'b) state"
    using callback_contributes [of env c p s] ok [OF that] by blast
  have cbT: "fst (callback env c filePath s) = Throw e \<and>
             parsedFiles (trace (snd (callback env c filePath s))) =
               parsedFiles (trace s) @ ?X filePath"
    for s :: "('a, 'b) state"
    using sel ev by (simp add: thr parsedFiles_emit)
  have st: "parsedFiles (trace (emit (EvStat p) s)) = parsedFiles (trace s)"
      "parsedFiles (trace (emit (EvReadDir p) s)) = parsedFiles (trace s)"
    for p and s :: "('a, 'b) state"
    by (simp_all add: parsedFiles_emit)
  have w: "fst ?W = Throw e \<and>
         parsedFiles (trace (snd ?W)) =
           parsedFiles (trace ?s0) @ concat (map ?X before) @ ?X filePath \<and>
         (\<exists>s0. ?W = callback env c filePath s0)"
    using tree wf st cbR cbT
    by (rule walkEntries_stops [where obs = "\<lambda>s. parsedFiles (trace s)" and X = ?X])
  then obtain s0 where w0: "?W = callback env c filePath s0" by blast
  obtain s2 where w2: "?W = (Throw e, s2)"
    using w by (cases ?W) auto
  have l: "last (trace s2) = ev"
    using w0 w2 by (simp add: thr emit_simps)
  have f: "files (snd ?W) = files ?s0" by (rule walkEntries_callback_quiet)
  have wk: "walk env src (callback env c) s1 = (Throw e, s2)"
    by (simp add: walk_listed [OF listed] w2)
  have g: "generateWith env config s = (Throw e, s2)"
    unfolding generateWith_def
    by (subst andThen_def) (simp add: prep cs, subst andThen_def, simp add: wk)
  have "parsedFiles (trace s2) = parsedFiles (trace s) @ filter (selected env c) before @ [filePath]"
    using w sel by (simp add: w2 parsedFiles_emit concat_map_if s1)
  moreover have "files s2 = files s" using f by (simp add: w2 emit_simps s1)
  ultimately show ?thesis using l by (simp add: g)
qed

text \<open>
  A run over a tree with a selected file on a node of which the extractor raises: the
  run throws, whatever happens before that file, and writes nothing.
\<close>

lemma generateWith_aborts:
  assumes src: "source config = Some src"
    and inc: "includes config = Some incs" and exc: "excludes config = Some excs"
    and listed: "readdirSync env src = Some entries"
    and mem: "filePath \<in> set (walkFiles env src entries)"
    and pkg: "fst (readPackage env config s) = Return (pn, mf)"
    and c: "c = \<lparr>cSource = src, cIncludes = incs, cExcludes = excs, cPackageName = pn,
                  cMainFilePath = mf, cSourceDirPath = pathResolve1 env src\<rparr>"
    and thr: "\<And>s0. \<exists>e s'. callback env c filePath s0 = (Throw e, s')"
  shows "\<exists>e s'. generateWith env config s = (Throw e, s') \<and> files s' = files s"
proof (cases "(\<forall>v\<in>set incs. regexValid env v) \<and> (\<forall>v\<in>set excs. regexValid env v)")
  case False
  with prepare_shape [OF inc exc src, of env s]
  obtain e s1 where "prepare env config s = (Throw e, s1)" "files s1 = files s"
    by blast
  then show ?thesis by (auto simp: generateWith_def andThen_def)
next
  case True
  then have valid: "\<forall>v\<in>set incs. regexValid env v" "\<forall>v\<in>set excs. regexValid env v"
    by blast+
  obtain s1 where prep: "prepare env config s = (Return c, s1)" and s1: "files s1 = files s"
    using prepare_closure [OF inc exc src valid pkg] unfolding c by blast
  have cs: "cSource c = src" by (simp add: c)
  let ?s1' = "emit (EvReadDir src) s1"
  obtain e s2 where w: "walkEntries env (callback env c) src entries ?s1' = (Throw e, s2)"
    using walkEntries_fatal [OF mem, of "callback env c" ?s1'] thr callback_quiet(3) by blast
  have "files (snd (walkEntries env (callback env c) src entries ?s1')) = files ?s1'"
    by (rule walkEntries_callback_quiet)
  then have s2: "files s2 = files s" by (simp add: w s1 emit_simps)
  have wk: "walk env src (callback env c) s1 = (Throw e, s2)"
    by (simp add: walk_listed [OF listed] w)
  have "generateWith env config s = (Throw e, s2)"
    unfolding generateWith_def
    by (subst andThen_def) (simp add: prep cs, subst andThen_def, simp add: wk)
  with s2 show ?thesis by blast
qed


text \<open>
  \<^verbatim>\<open>generate\<close>, when the extraction of the files walked before \<open>filePath\<close> returns and
  the callback throws on \<open>filePath\<close>, having logged \<open>ev\<close> last.
\<close>

lemma generate_stops:
  assumes asserts: "truthy (source config)" "truthy (destination config)"
    and src: "source (pluginOnHandleConfig env config) = Some src"
    and inc: "includes (setDefaultConfig (pluginOnHandleConfig env config)) = Some incs"
    and exc: "excludes (setDefaultConfig (pluginOnHandleConfig env config)) = Some excs"
    and valid: "\<forall>v\<in>set incs. regexValid env v" "\<forall>v\<in>set excs. regexValid env v"
    and listed: "readdirSync env src = Some entries" and tree: "walkable entries"
    and pkg: "fst (readPackage env (setDefaultConfig (pluginOnHandleConfig env config)) s) =
                Return (pn, mf)"
    and c: "c = \<lparr>cSource = src, cIncludes = incs, cExcludes = excs, cPackageName = pn,
                  cMainFilePath = mf, cSourceDirPath = pathResolve1 env src\<rparr>"
    and wf: "walkFiles env src entries = before @ filePath # after"
    and ok: "\<And>p. p \<in> set before \<Longrightarrow> selected env c p \<Longrightarrow> extracts env c p"
    and sel: "selected env c filePath"
    and thr: "\<And>s0. callback env c filePath s0 =
                (Throw e, emit ev (emit (EvParse filePath)
                   (emit (EvLoggerInfo (''parsing: '' @ filePath))
                      (emit (EvConsoleLog (''parse: '' @ filePath)) s0))))"
    and ev: "parsedFiles [ev] = []"
  shows "fst (generate env config s) = Throw e \<and>
         files (snd (generate env config s)) = files s \<and>
         last (trace (snd (generate env config s))) = ev \<and>
         parsedFiles (trace (snd (generate env config s))) =
           parsedFiles (trace s) @ filter (selected env c) before @ [filePath]"
proof -
  let ?cfg = "setDefaultConfig (pluginOnHandleConfig env config)"
  let ?s3 = "emit (EvOnHandleConfig config)
               (emit EvOnStart (emit (EvPluginInit (plugins config)) s))"
  have g: "generate env config s = generateWith env ?cfg ?s3"
    by (rule generate_after_asserts [OF asserts])
  have pkg3: "fst (readPackage env ?cfg ?s3) = Return (pn, mf)"
    using readPackage_result [of env ?cfg s] pkg by (auto simp: emit_simps)
  have src': "source ?cfg = Some src" using src by (simp add: setDefaultConfig_fields)
  have "fst (generateWith env ?cfg ?s3) = Throw e \<and>
         files (snd (generateWith env ?cfg ?s3)) = files ?s3 \<and>
         last (trace (snd (generateWith env ?cfg ?s3))) = ev \<and>
         parsedFiles (trace (snd (generateWith env ?cfg ?s3))) =
           parsedFiles (trace ?s3) @ filter (selected env c) before @ [filePath]"
    using src' inc exc valid listed tree pkg3 c wf ok sel thr ev by (rule generateWith_stops)
  then show ?thesis by (simp add: g emit_simps parsedFiles_append)
qed

section \<open>Facts about the small project\<close>

lemma exEnv_simps:
  "readdirSync exEnv ''./src'' =
     Some [(''a.js'', File), (''b.js'', File),
           (''lib'', Dir [(''c.config.js'', File), (''notes.txt'', File)])]"
  "pathResolve exEnv a b = a @ ''/'' @ b"
  "pathResolve1 exEnv a = a"
  "pathRelative exEnv a b = drop (length a + 1) b"
  "regexValid exEnv v"
  "regexMatch exEnv = exMatch"
  "esParse exEnv p = (if p = ''./src/b.js'' then Inl (Raised ''Unexpected token'') else Inr p)"
  "loggerShowFile exEnv p e = None"
  "astTraverse exEnv ast = [(ast, None)]"
  "factoryPush exEnv factory node parent = Inr (factory @ [mkDoc ''function'' (node @ ''~foo'') ''1''])"
  "pluginOnHandleConfig exEnv config = config"
  "pluginOnPublish exEnv = []"
  by (simp_all add: exEnv_def)

lemma exConfig_defaults:
  "setDefaultConfig exConfig =
     \<lparr>source = Some ''./src'', destination = Some ''./out'',
      includes = Some [backslash # ''.(js|es6)$''],
      excludes = Some [backslash # ''.config'' @ backslash # ''.(js|es6)$''],
      index = Some ''./README.md'', package = Some ''./package.json'', plugins = None,
      debug = None\<rparr>"
  by (simp add: setDefaultConfig_def exConfig_def Let_def truthy_def)

lemma exMatch_simps:
  "exMatch (backslash # ''.(js|es6)$'') ''a.js''"
  "exMatch (backslash # ''.(js|es6)$'') ''b.js''"
  "exMatch (backslash # ''.(js|es6)$'') ''lib/c.config.js''"
  "exMatch (backslash # ''.config'' @ backslash # ''.(js|es6)$'') ''lib/c.config.js''"
  "\<not> exMatch (backslash # ''.(js|es6)$'') ''lib/notes.txt''"
  "\<not> exMatch (backslash # ''.config'' @ backslash # ''.(js|es6)$'') ''a.js''"
  "\<not> exMatch (backslash # ''.config'' @ backslash # ''.(js|es6)$'') ''b.js''"
  by (simp_all add: exMatch_def endsWith_def backslash_def)

lemma exTree_walkable: "walkable exTree"
  by (simp add: exTree_def)


lemma exTree_walkFiles:
  assumes "\<And>a b. pathResolve env a b = a @ ''/'' @ b"
  shows "walkFiles env ''./src'' exTree =
     [''./src/a.js'', ''./src/b.js'', ''./src/lib/c.config.js'', ''./src/lib/notes.txt'',
      ''./src/lib/d.js'', ''./src/e.js'']"
  by (simp add: exTree_def assms)

lemma exClosure_selected:
  assumes "regexMatch env = exMatch" and "\<And>a b. pathRelative env a b = drop (length a + 1) b"
  shows "selected env exClosure ''./src/a.js''" "selected env exClosure ''./src/b.js''"
    "\<not> selected env exClosure ''./src/lib/c.config.js''"
    "\<not> selected env exClosure ''./src/lib/notes.txt''"
    "selected env exClosure ''./src/lib/d.js''" "selected env exClosure ''./src/e.js''"
  by (simp_all add: selected_def exClosure_def assms exMatch_def endsWith_def backslash_def)

lemma exState_package:
  assumes "jsonParsePackage env ''{}'' = None"
  shows "fst (readPackage env (setDefaultConfig exConfig) exState) = Return (None, None)"
  by (simp add: readPackage_def exConfig_defaults truthy_def readFileSync_def exState_def assms)



lemma exEnvBug_simps:
  "readdirSync exEnvBug ''./src'' = Some exTree"
  "pathResolve exEnvBug a b = a @ ''/'' @ b"
  "pathResolve1 exEnvBug a = a"
  "pathRelative exEnvBug a b = drop (length a + 1) b"
  "regexValid exEnvBug v"
  "regexMatch exEnvBug = exMatch"
  "esParse exEnvBug p = (if p = ''./src/b.js'' then Inl (Raised ''Unexpected token'') else Inr p)"
  "loggerShowFile exEnvBug p e = None"
  "astTraverse exEnvBug ast =
     [(ast, None), (ast @ ''#class'', Some ast), (ast @ ''#method'', Some (ast @ ''#class''))]"
  "factoryPush exEnvBug factory node parent =
     (if node = ''./src/lib/d.js#method'' then Inl (Raised ''Cannot read property'')
      else Inr (factory @ [mkDoc ''function'' (node @ ''~foo'') ''1'']))"
  "newDocFactory exEnvBug ast inDirPath filePath packageName mainFilePath = []"
  "jsonParsePackage exEnvBug t = None"
  "pluginOnHandleConfig exEnvBug config = config"
  by (simp_all add: exEnvBug_def exEnvTree_def exEnv_def)

section \<open>The claims about the pipeline\<close>

text \<open>
  Claim C8. When \<open>source\<close> or \<open>destination\<close> is absent (or empty), \<^verbatim>\<open>generate\<close> throws
  at once: the state is the one it was given, so no file was read, no hook called and
  nothing logged. \<^verbatim>\<open>_setDefaultConfig\<close> has no default for either field.
\<close>

theorem C8_required_fields_checked_first:
  assumes "\<not> truthy (source config) \<or> \<not> truthy (destination config)"
  shows "generate env config s = (Throw AssertionError, s) \<and>
         source (setDefaultConfig config) = source config \<and>
         destination (setDefaultConfig config) = destination config"
  using assms by (simp add: generate_asserts_fail setDefaultConfig_fields)

theorem C8_required_fields_checked_first_witness:
  "generate exEnv (exConfig\<lparr>source := None\<rparr>) exState = (Throw AssertionError, exState) \<and>
   generate exEnv (exConfig\<lparr>destination := Some []\<rparr>) exState = (Throw AssertionError, exState)"
  using C8_required_fields_checked_first [of "exConfig\<lparr>source := None\<rparr>" exEnv exState]
    C8_required_fields_checked_first [of "exConfig\<lparr>destination := Some []\<rparr>" exEnv exState]
  by (simp add: truthy_def)

text \<open>
  Claim C2, as the code has it. Once the two assertions have passed, the plugin host is
  started and \<^verbatim>\<open>onHandleConfig\<close> is called on the caller's configuration as it was
  given, before any default is filled; the rest of the run uses the configuration the
  hook returned with the defaults filled into it, and that one has \<open>includes\<close>,
  \<open>excludes\<close>, \<open>index\<close> and \<open>package\<close> populated, with the documented default wherever
  the hook's result had none.
\<close>

theorem C2_onHandleConfig_before_defaults:
  assumes "truthy (source config)" and "truthy (destination config)"
  shows "generate env config s =
           generateWith env (setDefaultConfig (pluginOnHandleConfig env config))
             (emit (EvOnHandleConfig config)
                (emit EvOnStart (emit (EvPluginInit (plugins config)) s))) \<and>
         includes (setDefaultConfig (pluginOnHandleConfig env config)) =
           (if includes (pluginOnHandleConfig env config) = None
            then Some [backslash # ''.(js|es6)$'']
            else includes (pluginOnHandleConfig env config)) \<and>
         excludes (setDefaultConfig (pluginOnHandleConfig env config)) =
           (if excludes (pluginOnHandleConfig env config) = None
            then Some [backslash # ''.config'' @ backslash # ''.(js|es6)$'']
            else excludes (pluginOnHandleConfig env config)) \<and>
         index (setDefaultConfig (pluginOnHandleConfig env config)) =
           (if truthy (index (pluginOnHandleConfig env config))
            then index (pluginOnHandleConfig env config) else Some ''./README.md'') \<and>
         package (setDefaultConfig (pluginOnHandleConfig env config)) =
           (if truthy (package (pluginOnHandleConfig env config))
            then package (pluginOnHandleConfig env config) else Some ''./package.json'')"
  using generate_after_asserts [OF assms] by (simp only: setDefaultConfig_defaults) simp

theorem C2_onHandleConfig_before_defaults_witness:
  "generate exEnv exConfig exState =
     generateWith exEnv (setDefaultConfig exConfig)
       (emit (EvOnHandleConfig exConfig) (emit EvOnStart (emit (EvPluginInit None) exState))) \<and>
   includes (setDefaultConfig exConfig) = Some [backslash # ''.(js|es6)$''] \<and>
   index (setDefaultConfig exConfig) = Some ''./README.md''"
proof -
  have "truthy (source exConfig)" "truthy (destination exConfig)"
    by (simp_all add: truthy_def exConfig_def)
  note t = C2_onHandleConfig_before_defaults [OF this, of exEnv exState]
  have p: "plugins exConfig = None" by (simp add: exConfig_def)
  have g: "generate exEnv exConfig exState =
     generateWith exEnv (setDefaultConfig exConfig)
       (emit (EvOnHandleConfig exConfig) (emit EvOnStart (emit (EvPluginInit None) exState)))"
    using t [THEN conjunct1] by (simp only: exEnv_simps p)
  have i: "includes (setDefaultConfig exConfig) = Some [backslash # ''.(js|es6)$'']"
    "index (setDefaultConfig exConfig) = Some ''./README.md''"
    by (simp_all add: exConfig_defaults)
  from g i show ?thesis by blast
qed

lemma ex_walkable:
  "walkable [(''a.js'', File), (''b.js'', File),
             (''lib'', Dir [(''c.config.js'', File), (''notes.txt'', File)])]"
  by simp

lemma ex_generate_completes:
  "(fst (generate exEnv exConfig exState) = Return () \<or>
    fst (generate exEnv exConfig exState) = Exit 1) \<and>
   (\<exists>docs. EvWriteFile ''./out/index.json'' (stringifyDocs exEnv docs)
              \<in> set (trace (snd (generate exEnv exConfig exState)))) \<and>
   EvOnHandleConfig exConfig \<in> set (trace (snd (generate exEnv exConfig exState)))"
proof -
  let ?s3 = "emit (EvOnHandleConfig exConfig)
               (emit EvOnStart (emit (EvPluginInit (plugins exConfig)) exState))"
  have a: "truthy (source exConfig)" "truthy (destination exConfig)"
    by (simp_all add: truthy_def exConfig_def)
  have g: "generate exEnv exConfig exState = generateWith exEnv (setDefaultConfig exConfig) ?s3"
    using generate_after_asserts [OF a, of exEnv exState] by (simp only: exEnv_simps)
  have r: "files ?s3 ''./README.md'' = Some ''# Project''"
    by (simp add: emit_simps exState_def)
  have c: "(fst (generateWith exEnv (setDefaultConfig exConfig) ?s3) = Return () \<or>
            fst (generateWith exEnv (setDefaultConfig exConfig) ?s3) = Exit 1) \<and>
         (\<exists>docs. EvWriteFile (pathResolve exEnv ''./out'' ''index.json'') (stringifyDocs exEnv docs)
                    \<in> set (trace (snd (generateWith exEnv (setDefaultConfig exConfig) ?s3)))) \<and>
         prefix (trace ?s3) (trace (snd (generateWith exEnv (setDefaultConfig exConfig) ?s3)))"
  proof (rule generateWith_completes [where src = "''./src''" and indexPath = "''./README.md''"])
    show "source (setDefaultConfig exConfig) = Some ''./src''" by (simp add: exConfig_defaults)
    show "destination (setDefaultConfig exConfig) = Some ''./out''" by (simp add: exConfig_defaults)
    show "includes (setDefaultConfig exConfig) = Some [backslash # ''.(js|es6)$'']"
      by (simp add: exConfig_defaults)
    show "excludes (setDefaultConfig exConfig) =
            Some [backslash # ''.config'' @ backslash # ''.(js|es6)$'']"
      by (simp add: exConfig_defaults)
    show "\<forall>v\<in>set [backslash # ''.(js|es6)$'']. regexValid exEnv v" by (simp add: exEnv_simps)
    show "\<forall>v\<in>set [backslash # ''.config'' @ backslash # ''.(js|es6)$'']. regexValid exEnv v"
      by (simp add: exEnv_simps)
    show "readdirSync exEnv ''./src'' =
            Some [(''a.js'', File), (''b.js'', File),
                  (''lib'', Dir [(''c.config.js'', File), (''notes.txt'', File)])]"
      by (rule exEnv_simps)
    show "walkable [(''a.js'', File), (''b.js'', File),
                    (''lib'', Dir [(''c.config.js'', File), (''notes.txt'', File)])]"
      by (rule ex_walkable)
    show "\<exists>factory'. factoryPush exEnv factory node parent = Inr factory'" for factory node parent
      by (simp add: exEnv_simps)
    show "loggerShowFile exEnv p e = None" for p e
      by (simp add: exEnv_simps)
    show "index (setDefaultConfig exConfig) = Some ''./README.md''" by (simp add: exConfig_defaults)
    show "files ?s3 ''./README.md'' = Some ''# Project''" by (rule r)
  qed
  have "EvOnHandleConfig exConfig \<in> set (trace ?s3)" by (simp add: emit_simps)
  with c have "EvOnHandleConfig exConfig
                 \<in> set (trace (snd (generateWith exEnv (setDefaultConfig exConfig) ?s3)))"
    by (blast intro: prefix_mem)
  moreover have "pathResolve exEnv ''./out'' ''index.json'' = ''./out/index.json''"
    by (simp add: exEnv_simps)
  ultimately show ?thesis using c by (simp only: g)
qed

text \<open>
  Claim C2, as stated, fails: in the run of the small project the hook is handed the
  caller's configuration, in which \<open>includes\<close>, \<open>excludes\<close>, \<open>index\<close> and \<open>package\<close> are
  all absent.
\<close>

theorem C2_onHandleConfig_after_defaults_counterexample:
  "EvOnHandleConfig exConfig \<in> set (trace (snd (generate exEnv exConfig exState))) \<and>
   includes exConfig = None \<and> excludes exConfig = None \<and>
   index exConfig = None \<and> package exConfig = None"
  using ex_generate_completes by (simp add: exConfig_def)

text \<open>
  Claim C3 fails on the code. When the index document cannot be read,
  \<^verbatim>\<open>_generateForIndex\<close> throws the read error: it returns no DocObject. Its sibling
  \<^verbatim>\<open>_generateForPackageJSON\<close>, on a manifest that cannot be read, returns the doc with
  empty content and empty longname.
\<close>

theorem C3_index_unreadable_throws:
  assumes "index config = Some indexPath" and "files s indexPath = None"
  shows "generateForIndex env config s =
           (Throw (FsError indexPath), emit (EvReadFile indexPath) s) \<and>
         (package config = Some indexPath \<longrightarrow>
            generateForPackageJSON env config s =
              (Return \<lparr>kind = ''packageJSON'', content = [], longname = [],
                       name = pathBasename env [], static = True, access = ''public'',
                       docId = None\<rparr>, emit (EvReadFile indexPath) s))"
  using assms
  by (simp add: generateForIndex_unreadable generateForPackageJSON_def readFileSync_def)

theorem C3_index_unreadable_throws_witness:
  "generateForIndex exEnv (setDefaultConfig exConfig) exStateNoReadme =
     (Throw (FsError ''./README.md''), emit (EvReadFile ''./README.md'') exStateNoReadme) \<and>
   fst (generate exEnv exConfig exStateNoReadme) = Throw (FsError ''./README.md'')"
proof -
  have i: "index (setDefaultConfig exConfig) = Some ''./README.md''"
    by (simp add: exConfig_defaults)
  have u: "files exStateNoReadme ''./README.md'' = None" by (simp add: exStateNoReadme_def)
  note t = C3_index_unreadable_throws [OF i u, of exEnv, THEN conjunct1]
  let ?s3 = "emit (EvOnHandleConfig exConfig)
               (emit EvOnStart (emit (EvPluginInit (plugins exConfig)) exStateNoReadme))"
  have a: "truthy (source exConfig)" "truthy (destination exConfig)"
    by (simp_all add: truthy_def exConfig_def)
  have g: "generate exEnv exConfig exStateNoReadme =
             generateWith exEnv (setDefaultConfig exConfig) ?s3"
    using generate_after_asserts [OF a, of exEnv exStateNoReadme] by (simp only: exEnv_simps)
  have "fst (generateWith exEnv (setDefaultConfig exConfig) ?s3) = Throw (FsError ''./README.md'')"
  proof (rule generateWith_index_unreadable [where src = "''./src''"])
    show "source (setDefaultConfig exConfig) = Some ''./src''" by (simp add: exConfig_defaults)
    show "includes (setDefaultConfig exConfig) = Some [backslash # ''.(js|es6)$'']"
      by (simp add: exConfig_defaults)
    show "excludes (setDefaultConfig exConfig) =
            Some [backslash # ''.config'' @ backslash # ''.(js|es6)$'']"
      by (simp add: exConfig_defaults)
    show "\<forall>v\<in>set [backslash # ''.(js|es6)$'']. regexValid exEnv v" by (simp add: exEnv_simps)
    show "\<forall>v\<in>set [backslash # ''.config'' @ backslash # ''.(js|es6)$'']. regexValid exEnv v"
      by (simp add: exEnv_simps)
    show "readdirSync exEnv ''./src'' =
            Some [(''a.js'', File), (''b.js'', File),
                  (''lib'', Dir [(''c.config.js'', File), (''notes.txt'', File)])]"
      by (rule exEnv_simps)
    show "walkable [(''a.js'', File), (''b.js'', File),
                    (''lib'', Dir [(''c.config.js'', File), (''notes.txt'', File)])]"
      by (rule ex_walkable)
    show "\<exists>factory'. factoryPush exEnv factory node parent = Inr factory'" for factory node parent
      by (simp add: exEnv_simps)
    show "loggerShowFile exEnv p e = None" for p e
      by (simp add: exEnv_simps)
    show "index (setDefaultConfig exConfig) = Some ''./README.md''" by (rule i)
    show "truthy (index (setDefaultConfig exConfig))" by (rule setDefaultConfig_populated)
    show "files ?s3 ''./README.md'' = None" by (simp add: emit_simps exStateNoReadme_def)
  qed
  with t g show ?thesis by simp
qed

text \<open>
  Claim C5. The callback of \<^verbatim>\<open>generate\<close>, called on a discovered plain file, calls the
  parser on it (the first step of \<^verbatim>\<open>_traverse\<close>) exactly when the file's path relative
  to the source root matches some compiled include pattern and no compiled exclude
  pattern; otherwise it returns with the state untouched.
\<close>

theorem C5_file_filter:
  "(EvParse filePath \<in> set (drop (length (trace s)) (trace (snd (callback env c filePath s))))) =
     ((\<exists>reg\<in>set (cIncludes c). regexMatch env reg (pathRelative env (cSourceDirPath c) filePath)) \<and>
      (\<forall>reg\<in>set (cExcludes c). \<not> regexMatch env reg (pathRelative env (cSourceDirPath c) filePath))) \<and>
   (\<not> ((\<exists>reg\<in>set (cIncludes c). regexMatch env reg (pathRelative env (cSourceDirPath c) filePath)) \<and>
       (\<forall>reg\<in>set (cExcludes c). \<not> regexMatch env reg (pathRelative env (cSourceDirPath c) filePath))) \<longrightarrow>
    callback env c filePath s = (Return (), s))"
proof (cases rule: callback_cases [of env c filePath s])
  case skipped
  then show ?thesis by (auto simp: includeLoop_iff excludeLoop_iff)
next
  case (parse_fails e)
  then show ?thesis by (auto simp: includeLoop_iff excludeLoop_iff emit_simps)
next
  case (logger_raises e e')
  then show ?thesis by (auto simp: includeLoop_iff excludeLoop_iff emit_simps)
next
  case (extracted ast docs)
  then show ?thesis by (auto simp: includeLoop_iff excludeLoop_iff emit_simps)
next
  case (push_raises ast e node)
  then show ?thesis by (auto simp: includeLoop_iff excludeLoop_iff emit_simps)
qed

theorem C5_file_filter_witness:
  "EvParse ''./src/a.js'' \<in> set (drop (length (trace exState))
       (trace (snd (callback exEnv exClosure ''./src/a.js'' exState)))) \<and>
   callback exEnv exClosure ''./src/lib/c.config.js'' exState = (Return (), exState) \<and>
   callback exEnv exClosure ''./src/lib/notes.txt'' exState = (Return (), exState)"
proof -
  have a: "(\<exists>reg\<in>set (cIncludes exClosure).
              regexMatch exEnv reg (pathRelative exEnv (cSourceDirPath exClosure) ''./src/a.js'')) \<and>
           (\<forall>reg\<in>set (cExcludes exClosure).
              \<not> regexMatch exEnv reg (pathRelative exEnv (cSourceDirPath exClosure) ''./src/a.js''))"
    by (simp add: exClosure_def exEnv_simps exMatch_def endsWith_def backslash_def)
  have b: "\<not> ((\<exists>reg\<in>set (cIncludes exClosure).
              regexMatch exEnv reg
                (pathRelative exEnv (cSourceDirPath exClosure) ''./src/lib/c.config.js'')) \<and>
           (\<forall>reg\<in>set (cExcludes exClosure).
              \<not> regexMatch exEnv reg
                  (pathRelative exEnv (cSourceDirPath exClosure) ''./src/lib/c.config.js'')))"
    by (simp add: exClosure_def exEnv_simps exMatch_def endsWith_def backslash_def)
  have c: "\<not> ((\<exists>reg\<in>set (cIncludes exClosure).
              regexMatch exEnv reg
                (pathRelative exEnv (cSourceDirPath exClosure) ''./src/lib/notes.txt'')) \<and>
           (\<forall>reg\<in>set (cExcludes exClosure).
              \<not> regexMatch exEnv reg
                  (pathRelative exEnv (cSourceDirPath exClosure) ''./src/lib/notes.txt'')))"
    by (simp add: exClosure_def exEnv_simps exMatch_def endsWith_def backslash_def)
  from C5_file_filter [of "''./src/a.js''" exState exEnv exClosure] a
  have 1: "EvParse ''./src/a.js'' \<in> set (drop (length (trace exState))
       (trace (snd (callback exEnv exClosure ''./src/a.js'' exState))))"
    by blast
  from C5_file_filter [of "''./src/lib/c.config.js''" exState exEnv exClosure] b
  have 2: "callback exEnv exClosure ''./src/lib/c.config.js'' exState = (Return (), exState)"
    by blast
  from C5_file_filter [of "''./src/lib/notes.txt''" exState exEnv exClosure] c
  have 3: "callback exEnv exClosure ''./src/lib/notes.txt'' exState = (Return (), exState)"
    by blast
  from 1 2 3 show ?thesis by blast
qed




text \<open>
  Claim C7. For a file that parses, take a node of its syntax tree such that the pushes of
  the nodes visited before it return and the extractor's push raises \<open>e\<close> on it. Then
  \<^verbatim>\<open>_traverse\<close> logs the file and the node and throws \<open>e\<close>, and so does the callback of
  \<^verbatim>\<open>generate\<close> when the file passes the filters. A run whose source tree holds such a
  file, selected by the filters, ends in a throw with no file written, whatever happens
  before that file. When the extraction of the files walked before it returns, the run
  throws \<open>e\<close> itself: the report of the node is the last thing it logs, no file after that
  one is parsed, and no file is written.
\<close>

theorem C7_extraction_error_is_fatal:
  assumes parse: "esParse env filePath = Inr ast"
    and nodes: "astTraverse env ast = pre @ (node, parent) # post"
  shows
    "(\<forall>inDirPath packageName mainFilePath factory e s.
        pushes env pre (newDocFactory env ast inDirPath filePath packageName mainFilePath) =
          Some factory \<and>
        factoryPush env factory node parent = Inl e \<longrightarrow>
        traverse env inDirPath filePath packageName mainFilePath s =
          (Throw e,
           emit (EvShowNode filePath node)
             (emit (EvParse filePath) (emit (EvLoggerInfo (''parsing: '' @ filePath)) s)))) \<and>
     (\<forall>c factory e s.
        selected env c filePath \<and>
        pushes env pre
          (newDocFactory env ast (cSource c) filePath (cPackageName c) (cMainFilePath c)) =
          Some factory \<and>
        factoryPush env factory node parent = Inl e \<longrightarrow>
        callback env c filePath s =
          (Throw e,
           emit (EvShowNode filePath node)
             (emit (EvParse filePath) (emit (EvLoggerInfo (''parsing: '' @ filePath))
                (emit (EvConsoleLog (''parse: '' @ filePath)) s))))) \<and>
     (\<forall>config s src incs excs entries packageName mainFilePath c factory e.
        source (pluginOnHandleConfig env config) = Some src \<and>
        includes (setDefaultConfig (pluginOnHandleConfig env config)) = Some incs \<and>
        excludes (setDefaultConfig (pluginOnHandleConfig env config)) = Some excs \<and>
        readdirSync env src = Some entries \<and>
        filePath \<in> set (walkFiles env src entries) \<and>
        fst (readPackage env (setDefaultConfig (pluginOnHandleConfig env config)) s) =
          Return (packageName, mainFilePath) \<and>
        c = \<lparr>cSource = src, cIncludes = incs, cExcludes = excs, cPackageName = packageName,
              cMainFilePath = mainFilePath, cSourceDirPath = pathResolve1 env src\<rparr> \<and>
        selected env c filePath \<and>
        pushes env pre (newDocFactory env ast src filePath packageName mainFilePath) =
          Some factory \<and>
        factoryPush env factory node parent = Inl e \<longrightarrow>
        (\<exists>e' s'. generate env config s = (Throw e', s') \<and> files s' = files s)) \<and>
     (\<forall>config s src incs excs entries before after packageName mainFilePath c factory e.
        truthy (source config) \<and> truthy (destination config) \<and>
        source (pluginOnHandleConfig env config) = Some src \<and>
        includes (setDefaultConfig (pluginOnHandleConfig env config)) = Some incs \<and>
        excludes (setDefaultConfig (pluginOnHandleConfig env config)) = Some excs \<and>
        (\<forall>v\<in>set incs. regexValid env v) \<and> (\<forall>v\<in>set excs. regexValid env v) \<and>
        readdirSync env src = Some entries \<and> walkable entries \<and>
        walkFiles env src entries = before @ filePath # after \<and>
        fst (readPackage env (setDefaultConfig (pluginOnHandleConfig env config)) s) =
          Return (packageName, mainFilePath) \<and>
        c = \<lparr>cSource = src, cIncludes = incs, cExcludes = excs, cPackageName = packageName,
              cMainFilePath = mainFilePath, cSourceDirPath = pathResolve1 env src\<rparr> \<and>
        (\<forall>p\<in>set before. selected env c p \<longrightarrow> extracts env c p) \<and>
        selected env c filePath \<and>
        pushes env pre (newDocFactory env ast src filePath packageName mainFilePath) =
          Some factory \<and>
        factoryPush env factory node parent = Inl e \<longrightarrow>
        fst (generate env config s) = Throw e \<and>
        files (snd (generate env config s)) = files s \<and>
        last (trace (snd (generate env config s))) = EvShowNode filePath node \<and>
        parsedFiles (trace (snd (generate env config s))) =
          parsedFiles (trace s) @ filter (selected env c) before @ [filePath])"
proof (intro conjI)
  show "\<forall>inDirPath packageName mainFilePath factory e s.
        pushes env pre (newDocFactory env ast inDirPath filePath packageName mainFilePath) =
          Some factory \<and>
        factoryPush env factory node parent = Inl e \<longrightarrow>
        traverse env inDirPath filePath packageName mainFilePath s =
          (Throw e,
           emit (EvShowNode filePath node)
             (emit (EvParse filePath) (emit (EvLoggerInfo (''parsing: '' @ filePath)) s)))"
    using traverse_raise_at [OF parse nodes] by blast
next
  show "\<forall>c factory e s.
        selected env c filePath \<and>
        pushes env pre
          (newDocFactory env ast (cSource c) filePath (cPackageName c) (cMainFilePath c)) =
          Some factory \<and>
        factoryPush env factory node parent = Inl e \<longrightarrow>
        callback env c filePath s =
          (Throw e,
           emit (EvShowNode filePath node)
             (emit (EvParse filePath) (emit (EvLoggerInfo (''parsing: '' @ filePath))
                (emit (EvConsoleLog (''parse: '' @ filePath)) s))))"
    using callback_raise_at [OF _ parse nodes] by blast
next
  show "\<forall>config s src incs excs entries packageName mainFilePath c factory e.
        source (pluginOnHandleConfig env config) = Some src \<and>
        includes (setDefaultConfig (pluginOnHandleConfig env config)) = Some incs \<and>
        excludes (setDefaultConfig (pluginOnHandleConfig env config)) = Some excs \<and>
        readdirSync env src = Some entries \<and>
        filePath \<in> set (walkFiles env src entries) \<and>
        fst (readPackage env (setDefaultConfig (pluginOnHandleConfig env config)) s) =
          Return (packageName, mainFilePath) \<and>
        c = \<lparr>cSource = src, cIncludes = incs, cExcludes = excs, cPackageName = packageName,
              cMainFilePath = mainFilePath, cSourceDirPath = pathResolve1 env src\<rparr> \<and>
        selected env c filePath \<and>
        pushes env pre (newDocFactory env ast src filePath packageName mainFilePath) =
          Some factory \<and>
        factoryPush env factory node parent = Inl e \<longrightarrow>
        (\<exists>e' s'. generate env config s = (Throw e', s') \<and> files s' = files s)"
  proof (intro allI impI, elim conjE)
    fix config src incs excs entries packageName mainFilePath factory e
      and c :: closure and s :: "('a, 'b) state"
    let ?cfg = "setDefaultConfig (pluginOnHandleConfig env config)"
    let ?s3 = "emit (EvOnHandleConfig config)
                 (emit EvOnStart (emit (EvPluginInit (plugins config)) s))"
    assume src: "source (pluginOnHandleConfig env config) = Some src"
      and inc: "includes ?cfg = Some incs" and exc: "excludes ?cfg = Some excs"
      and listed: "readdirSync env src = Some entries"
      and mem: "filePath \<in> set (walkFiles env src entries)"
      and pkg: "fst (readPackage env ?cfg s) = Return (packageName, mainFilePath)"
      and c: "c = \<lparr>cSource = src, cIncludes = incs, cExcludes = excs,
                    cPackageName = packageName, cMainFilePath = mainFilePath,
                    cSourceDirPath = pathResolve1 env src\<rparr>"
      and sel: "selected env c filePath"
      and before: "pushes env pre (newDocFactory env ast src filePath packageName mainFilePath) =
                     Some factory"
      and raise: "factoryPush env factory node parent = Inl e"
    show "\<exists>e' s'. generate env config s = (Throw e', s') \<and> files s' = files s"
    proof (cases "truthy (source config) \<and> truthy (destination config)")
      case False
      then have "generate env config s = (Throw AssertionError, s)"
        by (intro generate_asserts_fail) blast
      then show ?thesis by simp
    next
      case True
      then have g: "generate env config s = generateWith env ?cfg ?s3"
        by (intro generate_after_asserts) blast+
      have src': "source ?cfg = Some src" using src by (simp add: setDefaultConfig_fields)
      have pkg3: "fst (readPackage env ?cfg ?s3) = Return (packageName, mainFilePath)"
        using readPackage_result [of env ?cfg s] pkg by (auto simp: emit_simps)
      have before': "pushes env pre
          (newDocFactory env ast (cSource c) filePath (cPackageName c) (cMainFilePath c)) =
          Some factory"
        using before by (simp add: c)
      have thr: "\<exists>e' s'. callback env c filePath s0 = (Throw e', s')"
        for s0 :: "('a, 'b) state"
        using callback_raise_at [OF sel parse nodes before' raise, of s0] by blast
      have "\<exists>e' s'. generateWith env ?cfg ?s3 = (Throw e', s') \<and> files s' = files ?s3"
        using src' inc exc listed mem pkg3 c thr by (rule generateWith_aborts)
      then show ?thesis by (simp add: g emit_simps)
    qed
  qed
next
  show "\<forall>config s src incs excs entries before after packageName mainFilePath c factory e.
        truthy (source config) \<and> truthy (destination config) \<and>
        source (pluginOnHandleConfig env config) = Some src \<and>
        includes (setDefaultConfig (pluginOnHandleConfig env config)) = Some incs \<and>
        excludes (setDefaultConfig (pluginOnHandleConfig env config)) = Some excs \<and>
        (\<forall>v\<in>set incs. regexValid env v) \<and> (\<forall>v\<in>set excs. regexValid env v) \<and>
        readdirSync env src = Some entries \<and> walkable entries \<and>
        walkFiles env src entries = before @ filePath # after \<and>
        fst (readPackage env (setDefaultConfig (pluginOnHandleConfig env config)) s) =
          Return (packageName, mainFilePath) \<and>
        c = \<lparr>cSource = src, cIncludes = incs, cExcludes = excs, cPackageName = packageName,
              cMainFilePath = mainFilePath, cSourceDirPath = pathResolve1 env src\<rparr> \<and>
        (\<forall>p\<in>set before. selected env c p \<longrightarrow> extracts env c p) \<and>
        selected env c filePath \<and>
        pushes env pre (newDocFactory env ast src filePath packageName mainFilePath) =
          Some factory \<and>
        factoryPush env factory node parent = Inl e \<longrightarrow>
        fst (generate env config s) = Throw e \<and>
        files (snd (generate env config s)) = files s \<and>
        last (trace (snd (generate env config s))) = EvShowNode filePath node \<and>
        parsedFiles (trace (snd (generate env config s))) =
          parsedFiles (trace s) @ filter (selected env c) before @ [filePath]"
  proof (intro allI impI, elim conjE)
    fix config src incs excs entries before after packageName mainFilePath factory e
      and c :: closure and s :: "('a, 'b) state"
    let ?cfg = "setDefaultConfig (pluginOnHandleConfig env config)"
    assume asserts: "truthy (source config)" "truthy (destination config)"
      and src: "source (pluginOnHandleConfig env config) = Some src"
      and inc: "includes ?cfg = Some incs" and exc: "excludes ?cfg = Some excs"
      and valid: "\<forall>v\<in>set incs. regexValid env v" "\<forall>v\<in>set excs. regexValid env v"
      and listed: "readdirSync env src = Some entries" and tree: "walkable entries"
      and wf: "walkFiles env src entries = before @ filePath # after"
      and pkg: "fst (readPackage env ?cfg s) = Return (packageName, mainFilePath)"
      and c: "c = \<lparr>cSource = src, cIncludes = incs, cExcludes = excs,
                    cPackageName = packageName, cMainFilePath = mainFilePath,
                    cSourceDirPath = pathResolve1 env src\<rparr>"
      and ok: "\<forall>p\<in>set before. selected env c p \<longrightarrow> extracts env c p"
      and sel: "selected env c filePath"
      and before: "pushes env pre (newDocFactory env ast src filePath packageName mainFilePath) =
                     Some factory"
      and raise: "factoryPush env factory node parent = Inl e"
    have before': "pushes env pre
        (newDocFactory env ast (cSource c) filePath (cPackageName c) (cMainFilePath c)) =
        Some factory"
      using before by (simp add: c)
    have ok': "extracts env c p" if "p \<in> set before" "selected env c p" for p
      using ok that by blast
    have thr: "callback env c filePath s0 =
                (Throw e, emit (EvShowNode filePath node) (emit (EvParse filePath)
                   (emit (EvLoggerInfo (''parsing: '' @ filePath))
                      (emit (EvConsoleLog (''parse: '' @ filePath)) s0))))"
      for s0 :: "('a, 'b) state"
      using sel parse nodes before' raise by (rule callback_raise_at)
    have ev: "parsedFiles [EvShowNode filePath node] = []" by simp
    show "fst (generate env config s) = Throw e \<and>
        files (snd (generate env config s)) = files s \<and>
        last (trace (snd (generate env config s))) = EvShowNode filePath node \<and>
        parsedFiles (trace (snd (generate env config s))) =
          parsedFiles (trace s) @ filter (selected env c) before @ [filePath]"
      using asserts src inc exc valid listed tree pkg c wf ok' sel thr ev
      by (rule generate_stops)
  qed
qed

theorem C7_extraction_error_is_fatal_witness:
  "esParse exEnvBug ''./src/lib/d.js'' = Inr ''./src/lib/d.js'' \<and>
   astTraverse exEnvBug ''./src/lib/d.js'' =
     [(''./src/lib/d.js'', None), (''./src/lib/d.js#class'', Some ''./src/lib/d.js'')] @
     (''./src/lib/d.js#method'', Some ''./src/lib/d.js#class'') # [] \<and>
   pushes exEnvBug
     [(''./src/lib/d.js'', None), (''./src/lib/d.js#class'', Some ''./src/lib/d.js'')] [] =
     Some [mkDoc ''function'' ''./src/lib/d.js~foo'' ''1'',
           mkDoc ''function'' ''./src/lib/d.js#class~foo'' ''1''] \<and>
   factoryPush exEnvBug
     [mkDoc ''function'' ''./src/lib/d.js~foo'' ''1'',
      mkDoc ''function'' ''./src/lib/d.js#class~foo'' ''1'']
     ''./src/lib/d.js#method'' (Some ''./src/lib/d.js#class'') =
     Inl (Raised ''Cannot read property'') \<and>
   traverse exEnvBug ''./src'' ''./src/lib/d.js'' None None exState =
     (Throw (Raised ''Cannot read property''),
      emit (EvShowNode ''./src/lib/d.js'' ''./src/lib/d.js#method'')
        (emit (EvParse ''./src/lib/d.js'')
           (emit (EvLoggerInfo ''parsing: ./src/lib/d.js'') exState))) \<and>
   fst (callback exEnvBug exClosure ''./src/lib/d.js'' exState) =
     Throw (Raised ''Cannot read property'') \<and>
   fst (generate exEnvBug exConfig exState) = Throw (Raised ''Cannot read property'') \<and>
   files (snd (generate exEnvBug exConfig exState)) = files exState \<and>
   last (trace (snd (generate exEnvBug exConfig exState))) =
     EvShowNode ''./src/lib/d.js'' ''./src/lib/d.js#method'' \<and>
   parsedFiles (trace (snd (generate exEnvBug exConfig exState))) =
     [''./src/a.js'', ''./src/b.js'', ''./src/lib/d.js'']"
proof -
  let ?d = "''./src/lib/d.js''"
  let ?pre = "[(''./src/lib/d.js'', None), (''./src/lib/d.js#class'', Some ''./src/lib/d.js'')]"
  let ?fac = "[mkDoc ''function'' ''./src/lib/d.js~foo'' ''1'',
               mkDoc ''function'' ''./src/lib/d.js#class~foo'' ''1'']"
  let ?e = "Raised ''Cannot read property''"
  have parse: "esParse exEnvBug ?d = Inr ?d"
    by (simp add: exEnvBug_simps)
  have nodes: "astTraverse exEnvBug ?d =
                 ?pre @ (''./src/lib/d.js#method'', Some ''./src/lib/d.js#class'') # []"
    by (simp add: exEnvBug_simps)
  have pushed: "pushes exEnvBug ?pre [] = Some ?fac"
    by (simp add: exEnvBug_simps)
  have raise: "factoryPush exEnvBug ?fac ''./src/lib/d.js#method'' (Some ''./src/lib/d.js#class'') =
                 Inl ?e"
    by (simp add: exEnvBug_simps)
  note t = C7_extraction_error_is_fatal [OF parse nodes]
  note sel = exClosure_selected [of exEnvBug, OF exEnvBug_simps(6) exEnvBug_simps(4)]
  have fac0: "newDocFactory exEnvBug ?d inDirPath ?d packageName mainFilePath = []"
    for inDirPath packageName mainFilePath
    by (rule exEnvBug_simps)
  have 1: "traverse exEnvBug ''./src'' ?d None None exState =
     (Throw ?e,
      emit (EvShowNode ?d ''./src/lib/d.js#method'')
        (emit (EvParse ?d) (emit (EvLoggerInfo ''parsing: ./src/lib/d.js'') exState)))"
    using t [THEN conjunct1, rule_format, of "''./src''" None None ?fac ?e exState]
      pushed raise by (simp add: fac0)
  have 2: "fst (callback exEnvBug exClosure ?d exState) = Throw ?e"
    using t [THEN conjunct2, THEN conjunct1, rule_format, of exClosure ?fac ?e exState]
      pushed raise sel(5) by (simp add: fac0)
  have pkg: "fst (readPackage exEnvBug (setDefaultConfig (pluginOnHandleConfig exEnvBug exConfig))
                    exState) = Return (None, None)"
    by (simp only: exEnvBug_simps) (rule exState_package, rule exEnvBug_simps)
  have wf: "walkFiles exEnvBug ''./src'' exTree =
      [''./src/a.js'', ''./src/b.js'', ''./src/lib/c.config.js'', ''./src/lib/notes.txt''] @
      ?d # [''./src/e.js'']"
    using exTree_walkFiles [of exEnvBug, OF exEnvBug_simps(2)] by simp
  have ok: "\<forall>p\<in>set [''./src/a.js'', ''./src/b.js'', ''./src/lib/c.config.js'',
                      ''./src/lib/notes.txt''].
              selected exEnvBug exClosure p \<longrightarrow> extracts exEnvBug exClosure p"
    by (simp add: extracts_def exEnvBug_simps)
  have c: "exClosure = \<lparr>cSource = ''./src'', cIncludes = [backslash # ''.(js|es6)$''],
            cExcludes = [backslash # ''.config'' @ backslash # ''.(js|es6)$''],
            cPackageName = None, cMainFilePath = None,
            cSourceDirPath = pathResolve1 exEnvBug ''./src''\<rparr>"
    by (simp add: exClosure_def exEnvBug_simps)
  have cfg: "truthy (source exConfig)" "truthy (destination exConfig)"
    "source (pluginOnHandleConfig exEnvBug exConfig) = Some ''./src''"
    "includes (setDefaultConfig (pluginOnHandleConfig exEnvBug exConfig)) =
       Some [backslash # ''.(js|es6)$'']"
    "excludes (setDefaultConfig (pluginOnHandleConfig exEnvBug exConfig)) =
       Some [backslash # ''.config'' @ backslash # ''.(js|es6)$'']"
    by (simp_all add: exEnvBug_simps exConfig_defaults) (simp_all add: exConfig_def truthy_def)
  have valid: "\<forall>v\<in>set [backslash # ''.(js|es6)$'']. regexValid exEnvBug v"
    "\<forall>v\<in>set [backslash # ''.config'' @ backslash # ''.(js|es6)$'']. regexValid exEnvBug v"
    by (simp_all add: exEnvBug_simps)
  have mem: "?d \<in> set (walkFiles exEnvBug ''./src'' exTree)"
    by (simp add: wf)
  have pushed': "pushes exEnvBug ?pre (newDocFactory exEnvBug ?d ''./src'' ?d None None) = Some ?fac"
    using pushed by (simp add: fac0)
  have 3: "\<exists>e' s'. generate exEnvBug exConfig exState = (Throw e', s') \<and> files s' = files exState"
    using t [THEN conjunct2, THEN conjunct2, THEN conjunct1, rule_format,
        of exConfig "''./src''" "[backslash # ''.(js|es6)$'']"
           "[backslash # ''.config'' @ backslash # ''.(js|es6)$'']" exTree exState None None
           exClosure ?fac ?e]
      cfg(3-5) exEnvBug_simps(1) mem pkg c sel(5) pushed' raise
    by blast
  have 4: "fst (generate exEnvBug exConfig exState) = Throw ?e \<and>
        files (snd (generate exEnvBug exConfig exState)) = files exState \<and>
        last (trace (snd (generate exEnvBug exConfig exState))) =
          EvShowNode ?d ''./src/lib/d.js#method'' \<and>
        parsedFiles (trace (snd (generate exEnvBug exConfig exState))) =
          parsedFiles (trace exState) @
            filter (selected exEnvBug exClosure)
              [''./src/a.js'', ''./src/b.js'', ''./src/lib/c.config.js'', ''./src/lib/notes.txt'']
            @ [?d]"
    using t [THEN conjunct2, THEN conjunct2, THEN conjunct2, rule_format,
        of exConfig "''./src''" "[backslash # ''.(js|es6)$'']"
           "[backslash # ''.config'' @ backslash # ''.(js|es6)$'']" exTree
           "[''./src/a.js'', ''./src/b.js'', ''./src/lib/c.config.js'', ''./src/lib/notes.txt'']"
           "[''./src/e.js'']" exState None None exClosure ?fac ?e]
      cfg valid exEnvBug_simps(1) exTree_walkable wf pkg c ok sel(5) pushed' raise
    by blast
  have 5: "parsedFiles (trace (snd (generate exEnvBug exConfig exState))) =
     [''./src/a.js'', ''./src/b.js'', ''./src/lib/d.js'']"
    using 4 sel by (simp add: exState_def)
  from parse nodes pushed raise 1 2 3 4 5 show ?thesis by blast
qed

text \<open>
  Claim C9. When the \<^verbatim>\<open>onPublish\<close> hook raises (an error of its own, or one of a call it
  makes to \<^verbatim>\<open>write\<close>, \<^verbatim>\<open>copy\<close> or \<^verbatim>\<open>read\<close>), \<^verbatim>\<open>_publish\<close> logs the error and the
  process exits with code 1; nothing that is sequenced after \<^verbatim>\<open>_publish\<close> runs.
\<close>

theorem C9_onPublish_error_exits:
  assumes "onPublish env config (pluginOnPublish env) (emit EvOnPublish s) = (Throw e, s1)"
  shows "publish env config s = (Exit 1, emit (EvShowError e) s1) \<and>
         last (trace (snd (publish env config s))) = EvShowError e \<and>
         (\<forall>k. andThen (publish env config) k s = (Exit 1, emit (EvShowError e) s1))"
  using publish_Throw [OF assms] by (simp add: andThen_def emit_simps)

theorem C9_onPublish_error_exits_witness:
  "fst (publish exEnvPublish (setDefaultConfig exConfig) exState) = Exit 1 \<and>
   last (trace (snd (publish exEnvPublish (setDefaultConfig exConfig) exState))) =
     EvShowError (Raised ''render failed'')"
proof -
  have "\<exists>s1. onPublish exEnvPublish (setDefaultConfig exConfig) (pluginOnPublish exEnvPublish)
               (emit EvOnPublish exState) = (Throw (Raised ''render failed''), s1)"
    by (simp add: exEnvPublish_def exEnv_def onPublish.simps runCall_def publishWrite_def
          outputFileSync_def exConfig_defaults Let_def)
  then obtain s1 where
    "onPublish exEnvPublish (setDefaultConfig exConfig) (pluginOnPublish exEnvPublish)
       (emit EvOnPublish exState) = (Throw (Raised ''render failed''), s1)"
    by blast
  from C9_onPublish_error_exits [OF this]
  have p: "publish exEnvPublish (setDefaultConfig exConfig) exState =
             (Exit 1, emit (EvShowError (Raised ''render failed'')) s1)"
    and l: "last (trace (snd (publish exEnvPublish (setDefaultConfig exConfig) exState))) =
             EvShowError (Raised ''render failed'')"
    by blast+
  from p have "fst (publish exEnvPublish (setDefaultConfig exConfig) exState) = Exit 1"
    by simp
  with l show ?thesis by blast
qed

end
